theory Spec2Isabelle
  imports Main
begin

section \<open>Python string primitives used by \<open>sagenb_reader.py\<close>\<close>

text \<open>
  A Python text string is modelled as a \<open>string\<close>; a \<open>char\<close> stands for a code point
  below 256. The line boundaries of \<open>str.splitlines\<close> and the whitespace of
  \<open>str.strip\<close> are Python's sets restricted to that range.
\<close>

definition is_linebreak :: "char \<Rightarrow> bool" where
  "is_linebreak c =
     List.member [CHR 0x0A, CHR 0x0D, CHR 0x0B, CHR 0x0C, CHR 0x1C, CHR 0x1D, CHR 0x1E, CHR 0x85] c"

definition is_space :: "char \<Rightarrow> bool" where
  "is_space c =
     List.member [CHR 0x09, CHR 0x0A, CHR 0x0B, CHR 0x0C, CHR 0x0D, CHR 0x1C, CHR 0x1D, CHR 0x1E,
                  CHR 0x1F, CHR 0x20, CHR 0x85, CHR 0xA0] c"

text \<open>
  \<open>s.splitlines(keepends)\<close>: the text up to the next line boundary is one line; the pair
  CR LF is a single boundary; a boundary at the very end opens no further line.
\<close>

lemma dropWhile_Cons_shorter:
  assumes "dropWhile P s = c # r"
  shows "length r < length s" and "length (drop n r) < length s"
proof -
  have "length (dropWhile P s) \<le> length s"
    by (rule length_dropWhile_le)
  with assms show "length r < length s" by simp
  then show "length (drop n r) < length s" by simp
qed

function splitlines :: "bool \<Rightarrow> string \<Rightarrow> string list" where
  "splitlines keepends s =
     (if s = [] then []
      else
        let body = takeWhile (\<lambda>c. \<not> is_linebreak c) s;
            rest = dropWhile (\<lambda>c. \<not> is_linebreak c) s
        in case rest of
             [] \<Rightarrow> [body]
           | c # r \<Rightarrow>
               if c = CHR 0x0D \<and> take 1 r = [CHR 0x0A]
               then (if keepends then body @ [c, CHR 0x0A] else body) # splitlines keepends (drop 1 r)
               else (if keepends then body @ [c] else body) # splitlines keepends r)"
  by pat_completeness auto
termination
  by (relation "measure (\<lambda>(k, s). length s)")
     (auto dest: dropWhile_Cons_shorter [OF sym])

declare splitlines.simps [simp del]

definition strip :: "string \<Rightarrow> string" where
  "strip s = rev (dropWhile is_space (rev (dropWhile is_space s)))"

fun join :: "string \<Rightarrow> string list \<Rightarrow> string" where
  "join sep [] = []"
| "join sep [x] = x"
| "join sep (x # y # ys) = x @ sep @ join sep (y # ys)"

definition startswith :: "string \<Rightarrow> string \<Rightarrow> bool" where
  "startswith s p = (take (length p) s = p)"

text \<open>\<open>s.find(sub)\<close>: the least index where \<open>sub\<close> occurs; \<open>None\<close> stands for -1.\<close>

fun find :: "string \<Rightarrow> string \<Rightarrow> nat option" where
  "find [] sub = (if sub = [] then Some 0 else None)"
| "find (c # cs) sub =
     (if startswith (c # cs) sub then Some 0 else map_option Suc (find cs sub))"

text \<open>
  \<open>s.replace(old, new)\<close>: the occurrences of \<open>old\<close> are replaced from left to right,
  the scan going on behind each replaced occurrence.
\<close>

fun replace :: "string \<Rightarrow> string \<Rightarrow> string \<Rightarrow> string" where
  "replace [] old new = (if old = [] then new else [])"
| "replace (c # cs) old new =
     (if old = [] then new @ c # replace cs old new
      else if startswith (c # cs) old then new @ replace (drop (length old - 1) cs) old new
      else c # replace cs old new)"

section \<open>The marker patterns\<close>

datatype error = IndexError | ValueError | AssertionError

text \<open>
  The three patterns are anchored at both ends and are applied with \<open>match\<close>. In Python
  \<open>$\<close> matches at the end of the string and also just before a newline that ends the
  string; \<open>before_dollar\<close> is the part of the string the pattern then has to cover.
\<close>

definition before_dollar :: "string \<Rightarrow> string" where
  "before_dollar s = (if s \<noteq> [] \<and> last s = CHR 0x0A then butlast s else s)"

definition is_digit :: "char \<Rightarrow> bool" where
  "is_digit c = List.member ''0123456789'' c"

text \<open>
  \<open>CELL_FRONT.match(s)\<close>: \<open>None\<close> when the pattern does not match, else the group
  \<open>index\<close>, the run matched by \<open>[0-9]*\<close>.
\<close>

definition CELL_FRONT :: "string \<Rightarrow> string option" where
  "CELL_FRONT s =
     (let b = before_dollar s; ds = butlast (drop 6 b)
      in if take 6 b = ''{{{id='' \<and> drop 6 b \<noteq> [] \<and> last b = CHR ''|'' \<and> list_all is_digit ds
         then Some ds else None)"

definition CELL_MID :: "string \<Rightarrow> bool" where
  "CELL_MID s = (before_dollar s = ''///'')"

definition CELL_BACK :: "string \<Rightarrow> bool" where
  "CELL_BACK s = (before_dollar s = ''}}}'')"

text \<open>
  \<open>int(ds)\<close> for a run \<open>ds\<close> of decimal digits, which is all the pattern can capture:
  the empty string is no integer literal, and \<open>int('')\<close> raises ValueError.
\<close>

definition digit_value :: "char \<Rightarrow> int" where
  "digit_value c = int (of_char c) - 48"

definition decimal :: "string \<Rightarrow> int" where
  "decimal ds = foldl (\<lambda>a c. 10 * a + digit_value c) 0 ds"

definition py_int :: "string \<Rightarrow> error + int" where
  "py_int ds = (if ds = [] then Inl ValueError else Inr (decimal ds))"

section \<open>Cells\<close>

datatype cell =
    TextCell (cell_input: string)
  | ComputeCell (cell_index: int) (cell_input: string) (cell_output: string)

text \<open>\<open>ComputeCell.__init__\<close> asserts \<open>index >= 0\<close>.\<close>

definition new_ComputeCell :: "int \<Rightarrow> string \<Rightarrow> string \<Rightarrow> error + cell" where
  "new_ComputeCell i inp out =
     (if i \<ge> 0 then Inr (ComputeCell i inp out) else Inl AssertionError)"

section \<open>\<open>WorksheetParser\<close>\<close>

text \<open>
  The parser object: the lines of the worksheet, the cursor \<open>pos\<close> (it starts at 0 and
  is only ever incremented, hence a \<open>nat\<close>) and the index captured by the last match of
  the opening marker (-1 at first).
\<close>

record parser =
  worksheet_lines :: "string list"
  pos :: nat
  index :: int

definition WorksheetParser :: "string \<Rightarrow> parser" where
  "WorksheetParser worksheet_html =
     \<lparr>worksheet_lines = splitlines False worksheet_html, pos = 0, index = - 1\<rparr>"

text \<open>\<open>self.worksheet_lines[self.pos]\<close> raises IndexError when \<open>pos\<close> is past the last line.\<close>

definition line :: "parser \<Rightarrow> error + string" where
  "line p =
     (if pos p < length (worksheet_lines p) then Inr (worksheet_lines p ! pos p)
      else Inl IndexError)"

definition get_line_and_forward :: "parser \<Rightarrow> error + (string \<times> parser)" where
  "get_line_and_forward p =
     (case line p of
        Inl e \<Rightarrow> Inl e
      | Inr l \<Rightarrow> Inr (l, p\<lparr>pos := pos p + 1\<rparr>))"

definition is_finished :: "parser \<Rightarrow> bool" where
  "is_finished p = (pos p \<ge> length (worksheet_lines p))"

text \<open>The property \<open>is_cell_front\<close> also stores the captured index in the parser.\<close>

definition is_cell_front :: "parser \<Rightarrow> error + (bool \<times> parser)" where
  "is_cell_front p =
     (case line p of
        Inl e \<Rightarrow> Inl e
      | Inr l \<Rightarrow>
          (case CELL_FRONT l of
             Some ds \<Rightarrow>
               (case py_int ds of
                  Inl e \<Rightarrow> Inl e
                | Inr n \<Rightarrow> Inr (True, p\<lparr>index := n\<rparr>))
           | None \<Rightarrow> Inr (False, p)))"

definition is_cell_mid :: "parser \<Rightarrow> error + bool" where
  "is_cell_mid p = (case line p of Inl e \<Rightarrow> Inl e | Inr l \<Rightarrow> Inr (CELL_MID l))"

definition is_cell_back :: "parser \<Rightarrow> error + bool" where
  "is_cell_back p = (case line p of Inl e \<Rightarrow> Inl e | Inr l \<Rightarrow> Inr (CELL_BACK l))"

lemma line_Inr_pos: "line p = Inr l \<Longrightarrow> pos p < length (worksheet_lines p)"
  by (simp add: line_def split: if_splits)

lemma is_cell_front_Inr:
  "is_cell_front p = Inr (b, p') \<Longrightarrow>
     pos p' = pos p \<and> worksheet_lines p' = worksheet_lines p \<and> pos p < length (worksheet_lines p)"
  by (auto simp: is_cell_front_def dest: line_Inr_pos split: sum.splits option.splits)

lemma is_cell_mid_Inr: "is_cell_mid p = Inr b \<Longrightarrow> pos p < length (worksheet_lines p)"
  by (auto simp: is_cell_mid_def dest: line_Inr_pos split: sum.splits)

lemma is_cell_back_Inr: "is_cell_back p = Inr b \<Longrightarrow> pos p < length (worksheet_lines p)"
  by (auto simp: is_cell_back_def dest: line_Inr_pos split: sum.splits)

lemma get_line_and_forward_Inr:
  "get_line_and_forward p = Inr (l, p') \<Longrightarrow>
     pos p' = pos p + 1 \<and> worksheet_lines p' = worksheet_lines p \<and> index p' = index p
     \<and> pos p < length (worksheet_lines p)"
  by (auto simp: get_line_and_forward_def dest: line_Inr_pos split: sum.splits)

text \<open>
  The loop of \<open>_try_read_text\<close>,
  \<^verbatim>\<open>while not (self.is_cell_front or self.is_finished)\<close>:
  \<open>is_cell_front\<close> is evaluated first, \<open>is_finished\<close> only when it is false.
\<close>

function try_read_text_loop :: "parser \<Rightarrow> string list \<Rightarrow> error + (string list \<times> parser)" where
  "try_read_text_loop p accumulator =
     (case is_cell_front p of
        Inl e \<Rightarrow> Inl e
      | Inr (front, p1) \<Rightarrow>
          if front then Inr (accumulator, p1)
          else if is_finished p1 then Inr (accumulator, p1)
          else (case get_line_and_forward p1 of
                  Inl e \<Rightarrow> Inl e
                | Inr (l, p2) \<Rightarrow> try_read_text_loop p2 (accumulator @ [l])))"
  by pat_completeness auto
termination
  by (relation "measure (\<lambda>(p, a). length (worksheet_lines p) - pos p)")
     (auto dest!: is_cell_front_Inr get_line_and_forward_Inr)

declare try_read_text_loop.simps [simp del]

definition try_read_text :: "(string \<Rightarrow> string) \<Rightarrow> parser \<Rightarrow> error + (cell option \<times> parser)" where
  "try_read_text unescape p =
     (case try_read_text_loop p [] of
        Inl e \<Rightarrow> Inl e
      | Inr (acc, p1) \<Rightarrow>
          let accumulator = strip (join ''\<newline>'' acc)
          in if accumulator \<noteq> [] then Inr (Some (TextCell (unescape accumulator)), p1)
             else Inr (None, p1))"

text \<open>The loops of \<open>_read_cell_input\<close> and \<open>_read_cell_output\<close>.\<close>

function read_cell_input_loop :: "parser \<Rightarrow> string list \<Rightarrow> error + (string list \<times> parser)" where
  "read_cell_input_loop p accumulator =
     (case is_cell_mid p of
        Inl e \<Rightarrow> Inl e
      | Inr mid \<Rightarrow>
          if mid then Inr (accumulator, p)
          else if is_finished p then Inr (accumulator, p)
          else (case get_line_and_forward p of
                  Inl e \<Rightarrow> Inl e
                | Inr (l, p1) \<Rightarrow> read_cell_input_loop p1 (accumulator @ [l])))"
  by pat_completeness auto
termination
  by (relation "measure (\<lambda>(p, a). length (worksheet_lines p) - pos p)")
     (auto dest!: get_line_and_forward_Inr)

declare read_cell_input_loop.simps [simp del]

function read_cell_output_loop :: "parser \<Rightarrow> string list \<Rightarrow> error + (string list \<times> parser)" where
  "read_cell_output_loop p accumulator =
     (case is_cell_back p of
        Inl e \<Rightarrow> Inl e
      | Inr back \<Rightarrow>
          if back then Inr (accumulator, p)
          else if is_finished p then Inr (accumulator, p)
          else (case get_line_and_forward p of
                  Inl e \<Rightarrow> Inl e
                | Inr (l, p1) \<Rightarrow> read_cell_output_loop p1 (accumulator @ [l])))"
  by pat_completeness auto
termination
  by (relation "measure (\<lambda>(p, a). length (worksheet_lines p) - pos p)")
     (auto dest!: get_line_and_forward_Inr)

declare read_cell_output_loop.simps [simp del]

definition read_cell_input :: "(string \<Rightarrow> string) \<Rightarrow> parser \<Rightarrow> error + (string \<times> parser)" where
  "read_cell_input unescape p =
     (case is_cell_front p of
        Inl e \<Rightarrow> Inl e
      | Inr (front, p1) \<Rightarrow>
          if \<not> front then Inl AssertionError
          else (case read_cell_input_loop (p1\<lparr>pos := pos p1 + 1\<rparr>) [] of
                  Inl e \<Rightarrow> Inl e
                | Inr (acc, p2) \<Rightarrow> Inr (unescape (strip (join ''\<newline>'' acc)), p2)))"

definition read_cell_output :: "(string \<Rightarrow> string) \<Rightarrow> parser \<Rightarrow> error + (string \<times> parser)" where
  "read_cell_output unescape p =
     (case is_cell_mid p of
        Inl e \<Rightarrow> Inl e
      | Inr mid \<Rightarrow>
          if \<not> mid then Inl AssertionError
          else (case read_cell_output_loop (p\<lparr>pos := pos p + 1\<rparr>) [] of
                  Inl e \<Rightarrow> Inl e
                | Inr (acc, p1) \<Rightarrow> Inr (unescape (strip (join ''\<newline>'' acc)), p1)))"

definition read_cell :: "(string \<Rightarrow> string) \<Rightarrow> parser \<Rightarrow> error + (cell \<times> parser)" where
  "read_cell unescape p =
     (case read_cell_input unescape p of
        Inl e \<Rightarrow> Inl e
      | Inr (inp, p1) \<Rightarrow>
          (case read_cell_output unescape p1 of
             Inl e \<Rightarrow> Inl e
           | Inr (out, p2) \<Rightarrow>
               (case new_ComputeCell (index p2) inp out of
                  Inl e \<Rightarrow> Inl e
                | Inr c \<Rightarrow> Inr (c, p2))))"


text \<open>The cursor only moves forward, and the lines are never changed.\<close>

lemma try_read_text_loop_pos:
  "try_read_text_loop p a = Inr (acc, p') \<Longrightarrow>
     pos p \<le> pos p' \<and> worksheet_lines p' = worksheet_lines p"
proof (induction p a rule: try_read_text_loop.induct)
  case (1 p accumulator)
  show ?case
  proof (cases "is_cell_front p")
    case (Inl e)
    with "1.prems" show ?thesis by (simp add: try_read_text_loop.simps [of p])
  next
    case (Inr r)
    obtain front p1 where r: "r = (front, p1)" by (cases r)
    note f = is_cell_front_Inr [OF Inr [unfolded r]]
    show ?thesis
    proof (cases "front \<or> is_finished p1")
      case True
      with "1.prems" Inr r f show ?thesis
        by (auto simp: try_read_text_loop.simps [of p] split: if_splits)
    next
      case False
      show ?thesis
      proof (cases "get_line_and_forward p1")
        case (Inl e)
        with "1.prems" Inr r False show ?thesis
          by (simp add: try_read_text_loop.simps [of p])
      next
        case (Inr r2)
        obtain l p2 where r2: "r2 = (l, p2)" by (cases r2)
        note g = get_line_and_forward_Inr [OF Inr [unfolded r2]]
        from "1.prems" \<open>is_cell_front p = Inr r\<close> r False Inr r2
        have "try_read_text_loop p2 (accumulator @ [l]) = Inr (acc, p')"
          by (simp add: try_read_text_loop.simps [of p])
        with "1.IH" [OF \<open>is_cell_front p = Inr r\<close> r [symmetric] _ _ Inr r2 [symmetric]] False
        have "pos p2 \<le> pos p' \<and> worksheet_lines p' = worksheet_lines p2" by simp
        with f g show ?thesis by simp
      qed
    qed
  qed
qed

lemma read_cell_input_loop_pos:
  "read_cell_input_loop p a = Inr (acc, p') \<Longrightarrow>
     pos p \<le> pos p' \<and> worksheet_lines p' = worksheet_lines p \<and> index p' = index p"
proof (induction p a rule: read_cell_input_loop.induct)
  case (1 p accumulator)
  show ?case
  proof (cases "is_cell_mid p")
    case (Inl e)
    with "1.prems" show ?thesis by (simp add: read_cell_input_loop.simps [of p])
  next
    case (Inr marker)
    show ?thesis
    proof (cases "marker \<or> is_finished p")
      case True
      with "1.prems" Inr show ?thesis
        by (auto simp: read_cell_input_loop.simps [of p] split: if_splits)
    next
      case False
      show ?thesis
      proof (cases "get_line_and_forward p")
        case (Inl e)
        with "1.prems" \<open>is_cell_mid p = Inr marker\<close> False show ?thesis
          by (simp add: read_cell_input_loop.simps [of p])
      next
        case (Inr r)
        obtain l p1 where r: "r = (l, p1)" by (cases r)
        note g = get_line_and_forward_Inr [OF Inr [unfolded r]]
        from "1.prems" \<open>is_cell_mid p = Inr marker\<close> False Inr r
        have "read_cell_input_loop p1 (accumulator @ [l]) = Inr (acc, p')"
          by (simp add: read_cell_input_loop.simps [of p])
        with "1.IH" [OF \<open>is_cell_mid p = Inr marker\<close> _ _ Inr r [symmetric]] False
        have "pos p1 \<le> pos p' \<and> worksheet_lines p' = worksheet_lines p1 \<and> index p' = index p1"
          by simp
        with g show ?thesis by simp
      qed
    qed
  qed
qed

lemma read_cell_output_loop_pos:
  "read_cell_output_loop p a = Inr (acc, p') \<Longrightarrow>
     pos p \<le> pos p' \<and> worksheet_lines p' = worksheet_lines p \<and> index p' = index p"
proof (induction p a rule: read_cell_output_loop.induct)
  case (1 p accumulator)
  show ?case
  proof (cases "is_cell_back p")
    case (Inl e)
    with "1.prems" show ?thesis by (simp add: read_cell_output_loop.simps [of p])
  next
    case (Inr marker)
    show ?thesis
    proof (cases "marker \<or> is_finished p")
      case True
      with "1.prems" Inr show ?thesis
        by (auto simp: read_cell_output_loop.simps [of p] split: if_splits)
    next
      case False
      show ?thesis
      proof (cases "get_line_and_forward p")
        case (Inl e)
        with "1.prems" \<open>is_cell_back p = Inr marker\<close> False show ?thesis
          by (simp add: read_cell_output_loop.simps [of p])
      next
        case (Inr r)
        obtain l p1 where r: "r = (l, p1)" by (cases r)
        note g = get_line_and_forward_Inr [OF Inr [unfolded r]]
        from "1.prems" \<open>is_cell_back p = Inr marker\<close> False Inr r
        have "read_cell_output_loop p1 (accumulator @ [l]) = Inr (acc, p')"
          by (simp add: read_cell_output_loop.simps [of p])
        with "1.IH" [OF \<open>is_cell_back p = Inr marker\<close> _ _ Inr r [symmetric]] False
        have "pos p1 \<le> pos p' \<and> worksheet_lines p' = worksheet_lines p1 \<and> index p' = index p1"
          by simp
        with g show ?thesis by simp
      qed
    qed
  qed
qed

lemma try_read_text_pos:
  "try_read_text unescape p = Inr (t, p') \<Longrightarrow>
     pos p \<le> pos p' \<and> worksheet_lines p' = worksheet_lines p"
  by (auto simp: try_read_text_def Let_def split: sum.splits prod.splits if_splits
           dest!: try_read_text_loop_pos)

lemma read_cell_input_pos:
  "read_cell_input unescape p = Inr (x, p') \<Longrightarrow>
     pos p < pos p' \<and> worksheet_lines p' = worksheet_lines p"
  by (auto simp: read_cell_input_def split: sum.splits prod.splits if_splits
           dest!: read_cell_input_loop_pos is_cell_front_Inr)

lemma read_cell_output_pos:
  "read_cell_output unescape p = Inr (x, p') \<Longrightarrow>
     pos p < pos p' \<and> worksheet_lines p' = worksheet_lines p"
  by (auto simp: read_cell_output_def split: sum.splits prod.splits if_splits
           dest!: read_cell_output_loop_pos)

lemma read_cell_pos:
  "read_cell unescape p = Inr (c, p') \<Longrightarrow>
     pos p + 2 \<le> pos p' \<and> worksheet_lines p' = worksheet_lines p"
  by (auto simp: read_cell_def split: sum.splits prod.splits
           dest!: read_cell_input_pos read_cell_output_pos)

text \<open>
  The generator \<open>__iter__\<close>. Its result is the list of the cells it yields, in the order
  of the \<open>yield\<close>s, and how the iteration ends: \<open>None\<close> when the loop is left, \<open>Some e\<close>
  when the exception \<open>e\<close> is raised to the consumer.
\<close>

definition yield :: "cell list \<Rightarrow> cell list \<times> error option \<Rightarrow> cell list \<times> error option" where
  "yield ys r = (ys @ fst r, snd r)"

function iter :: "(string \<Rightarrow> string) \<Rightarrow> parser \<Rightarrow> cell list \<times> error option" where
  "iter unescape p =
     (if is_finished p then ([], None)
      else
        (case try_read_text unescape p of
           Inl e \<Rightarrow> ([], Some e)
         | Inr (text, p1) \<Rightarrow>
             yield (case text of Some t \<Rightarrow> [t] | None \<Rightarrow> [])
               (case read_cell unescape p1 of
                  Inl e \<Rightarrow> ([], Some e)
                | Inr (c, p2) \<Rightarrow>
                    yield [c]
                      (if \<not> is_finished p2
                       then (case is_cell_back p2 of
                               Inl e \<Rightarrow> ([], Some e)
                             | Inr back \<Rightarrow>
                                 if \<not> back then ([], Some AssertionError)
                                 else iter unescape (p2\<lparr>pos := pos p2 + 1\<rparr>))
                       else iter unescape p2))))"
  by pat_completeness auto
termination
  by (relation "measure (\<lambda>(u, p). length (worksheet_lines p) - pos p)")
     (auto simp: is_finished_def dest!: try_read_text_pos read_cell_pos)

declare iter.simps [simp del]

text \<open>Iterating over \<open>WorksheetParser(worksheet_html)\<close>.\<close>

definition cells :: "(string \<Rightarrow> string) \<Rightarrow> string \<Rightarrow> cell list \<times> error option" where
  "cells unescape worksheet_html = iter unescape (WorksheetParser worksheet_html)"

section \<open>The derived views of \<open>ComputeCell\<close>\<close>

text \<open>
  \<open>ComputeCell.ipython_input\<close>, as a function of \<open>self.input\<close>. The two \<open>for\<close> loops
  share one iterator: the first returns the lines it has not consumed, the second appends
  them.
\<close>

fun ipython_input_magics :: "string list \<Rightarrow> string \<Rightarrow> string list \<times> string" where
  "ipython_input_magics [] res = ([], res)"
| "ipython_input_magics (l # lines) res =
     (if \<not> startswith l ''%'' then (lines, res @ l)
      else
        let l' = strip l
        in if List.member [''%auto'', ''%hide'', ''%hideall'', ''%save_server''] l'
           then ipython_input_magics lines res
           else ipython_input_magics lines (res @ ''%'' @ l' @ ''\<newline>''))"

fun ipython_input_rest :: "string list \<Rightarrow> string \<Rightarrow> string" where
  "ipython_input_rest [] res = res"
| "ipython_input_rest (l # lines) res = ipython_input_rest lines (res @ l)"

definition ipython_input :: "string \<Rightarrow> string" where
  "ipython_input inp =
     (case ipython_input_magics (splitlines True inp) [] of
        (lines, res) \<Rightarrow> ipython_input_rest lines res)"

text \<open>
  \<open>ComputeCell.plain_text_output\<close>, as a function of \<open>self.output\<close>: the \<open>while\<close> loop
  and the final \<open>replace\<close>.
\<close>

function plain_text_output_loop :: "string \<Rightarrow> string \<Rightarrow> string" where
  "plain_text_output_loop s t =
     (if length s > 0 then
        (case find s ''<html>'' of
           None \<Rightarrow> t @ s
         | Some i \<Rightarrow>
             (case find s ''</html>'' of
                None \<Rightarrow> t @ take i s
              | Some j \<Rightarrow> plain_text_output_loop (drop (j + 7) s) (t @ take i s)))
      else t)"
  by pat_completeness auto
termination
  by (relation "measure (\<lambda>(s, t). length s)") auto

declare plain_text_output_loop.simps [simp del]

definition plain_text_output :: "string \<Rightarrow> string" where
  "plain_text_output out = replace (plain_text_output_loop out []) ''</html>'' []"

section \<open>The specification's view of the same operations\<close>

text \<open>
  \<open>directive_rewrite\<close> as the specification words it: of the leading lines that begin
  with \<open>%\<close>, those that are a no-op directive once stripped are dropped and the others
  become \<open>%\<close>, the stripped line and a newline (\<open>promote\<close>); the lines from the first
  one that does not begin with \<open>%\<close> on are kept as they are.
\<close>

definition noop_directive :: "string \<Rightarrow> bool" where
  "noop_directive l = List.member [''%auto'', ''%hide'', ''%hideall'', ''%save_server''] (strip l)"

definition promote :: "string \<Rightarrow> string" where
  "promote l = ''%'' @ strip l @ ''\<newline>''"

definition directive_rewrite :: "string \<Rightarrow> string" where
  "directive_rewrite inp =
     (let lines = splitlines True inp;
          leading = takeWhile (\<lambda>l. startswith l ''%'') lines;
          remaining = dropWhile (\<lambda>l. startswith l ''%'') lines;
          kept = filter (\<lambda>l. \<not> noop_directive l) leading
      in concat (map promote kept) @ concat remaining)"

text \<open>
  The leading directive block of a rewritten input: its leading lines that begin with
  \<open>%%\<close>.
\<close>

definition leading_block :: "string \<Rightarrow> string list" where
  "leading_block s = takeWhile (\<lambda>l. startswith l ''%%'') (splitlines True s)"

text \<open>
  \<open>visible_output\<close> as the specification words it: the text before the next opening tag
  is kept; without an opening tag the rest is kept and the scan stops; without a closing
  tag behind the opening tag the rest is discarded and the scan stops; else everything
  from the opening tag through that closing tag is discarded and the scan goes on behind
  it. The closing tags that remain are stripped at the end.
\<close>

lemma find_Some_nonempty: "find s sub = Some i \<Longrightarrow> sub \<noteq> [] \<Longrightarrow> s \<noteq> []"
  by (cases s) auto

function visible_output_scan :: "string \<Rightarrow> string" where
  "visible_output_scan s =
     (case find s ''<html>'' of
        None \<Rightarrow> s
      | Some i \<Rightarrow>
          (case find (drop (i + 6) s) ''</html>'' of
             None \<Rightarrow> take i s
           | Some k \<Rightarrow> take i s @ visible_output_scan (drop (i + 6 + k + 7) s)))"
  by pat_completeness auto
termination
  by (relation "measure length") (auto dest: find_Some_nonempty)

declare visible_output_scan.simps [simp del]

definition visible_output :: "string \<Rightarrow> string" where
  "visible_output out = replace (visible_output_scan out) ''</html>'' []"

text \<open>
  A well-formed worksheet is a sequence of segments. A segment is a run of narrative
  lines, none of them an opening marker; the opening marker with a non-empty run of
  digits; the input lines, none of them the middle marker; the middle marker; the output
  lines, none of them the closing marker; the closing marker.
\<close>

type_synonym segment = "string list \<times> string \<times> string list \<times> string list"

fun segment_lines :: "segment \<Rightarrow> string list" where
  "segment_lines (narrative, ds, inp, out) =
     narrative @ [''{{{id='' @ ds @ ''|''] @ inp @ [''///''] @ out @ [''}}}'']"

fun segment_ok :: "segment \<Rightarrow> bool" where
  "segment_ok (narrative, ds, inp, out) =
     (list_all (\<lambda>l. CELL_FRONT l = None) narrative \<and> ds \<noteq> [] \<and> list_all is_digit ds
      \<and> list_all (\<lambda>l. \<not> CELL_MID l) inp \<and> list_all (\<lambda>l. \<not> CELL_BACK l) out)"

text \<open>The cells a segment stands for: its TextCell if the narrative is not blank, then its ComputeCell.\<close>

fun segment_cells :: "(string \<Rightarrow> string) \<Rightarrow> segment \<Rightarrow> cell list" where
  "segment_cells unescape (narrative, ds, inp, out) =
     (if strip (join ''\<newline>'' narrative) \<noteq> []
      then [TextCell (unescape (strip (join ''\<newline>'' narrative)))] else [])
     @ [ComputeCell (decimal ds) (unescape (strip (join ''\<newline>'' inp)))
          (unescape (strip (join ''\<newline>'' out)))]"

text \<open>The index of a ComputeCell is not negative; a TextCell has no index.\<close>

fun index_ok :: "cell \<Rightarrow> bool" where
  "index_ok (TextCell inp) = True"
| "index_ok (ComputeCell i inp out) = (i \<ge> 0)"

section \<open>Lines of a string\<close>


lemma splitlines_Nil: "splitlines keepends [] = []"
  by (subst splitlines.simps) simp

lemma splitlines_last_line:
  assumes "s \<noteq> []" and "dropWhile (\<lambda>c. \<not> is_linebreak c) s = []"
  shows "splitlines keepends s = [s]"
proof -
  from assms(2) have tw: "takeWhile (\<lambda>c. \<not> is_linebreak c) s = s" by simp
  show ?thesis
    by (subst splitlines.simps) (simp only: assms tw Let_def if_False list.case)
qed

lemma splitlines_crlf:
  assumes "dropWhile (\<lambda>c. \<not> is_linebreak c) s = CHR 0x0D # CHR 0x0A # r"
  shows "splitlines keepends s =
           (takeWhile (\<lambda>c. \<not> is_linebreak c) s @ (if keepends then [CHR 0x0D, CHR 0x0A] else []))
           # splitlines keepends r"
proof -
  from assms have ne: "s \<noteq> []" by auto
  have "splitlines keepends s =
          (if keepends then takeWhile (\<lambda>c. \<not> is_linebreak c) s @ [CHR 0x0D, CHR 0x0A]
           else takeWhile (\<lambda>c. \<not> is_linebreak c) s) # splitlines keepends (drop 1 (CHR 0x0A # r))"
    by (subst splitlines.simps) (simp only: assms ne Let_def if_False list.case, simp)
  then show ?thesis by simp
qed

lemma splitlines_break:
  assumes "dropWhile (\<lambda>c. \<not> is_linebreak c) s = c # r"
    and "\<not> (c = CHR 0x0D \<and> take 1 r = [CHR 0x0A])"
  shows "splitlines keepends s =
           (takeWhile (\<lambda>c. \<not> is_linebreak c) s @ (if keepends then [c] else []))
           # splitlines keepends r"
proof -
  from assms have ne: "s \<noteq> []" by auto
  have "splitlines keepends s =
          (if keepends then takeWhile (\<lambda>c. \<not> is_linebreak c) s @ [c]
           else takeWhile (\<lambda>c. \<not> is_linebreak c) s) # splitlines keepends r"
    by (subst splitlines.simps) (simp only: assms ne Let_def if_False list.case)
  then show ?thesis by simp
qed

lemma concat_splitlines: "concat (splitlines True s) = s"
proof (induction s rule: length_induct)
  case (1 s)
  let ?body = "takeWhile (\<lambda>c. \<not> is_linebreak c) s"
  let ?rest = "dropWhile (\<lambda>c. \<not> is_linebreak c) s"
  have s: "?body @ ?rest = s" by simp
  show ?case
  proof (cases "s = []")
    case True
    then show ?thesis by (simp add: splitlines_Nil)
  next
    case False
    show ?thesis
    proof (cases ?rest)
      case Nil
      with False show ?thesis by (simp add: splitlines_last_line)
    next
      case (Cons c r)
      have short: "length r < length s"
        by (rule dropWhile_Cons_shorter(1) [OF Cons])
      show ?thesis
      proof (cases "c = CHR 0x0D \<and> take 1 r = [CHR 0x0A]")
        case True
        then obtain r' where r: "r = CHR 0x0A # r'" by (cases r) auto
        with short have "concat (splitlines True r') = r'" using 1 by simp
        moreover have "splitlines True s = (?body @ [CHR 0x0D, CHR 0x0A]) # splitlines True r'"
          using splitlines_crlf [of s r' True] Cons True r by simp
        ultimately have "concat (splitlines True s) = ?body @ CHR 0x0D # CHR 0x0A # r'" by simp
        also have "\<dots> = ?body @ ?rest" using Cons True r by simp
        finally show ?thesis using s by simp
      next
        case nocrlf: False
        from short have "concat (splitlines True r) = r" using 1 by simp
        moreover have "splitlines True s = (?body @ [c]) # splitlines True r"
          using splitlines_break [OF Cons nocrlf, of True] by simp
        ultimately have "concat (splitlines True s) = ?body @ c # r" by simp
        also have "\<dots> = ?body @ ?rest" using Cons by simp
        finally show ?thesis using s by simp
      qed
    qed
  qed
qed

lemma ipython_input_rest_concat: "ipython_input_rest lines res = res @ concat lines"
  by (induction lines arbitrary: res) auto

lemma ipython_input_magics_rest:
  "ipython_input_rest (fst (ipython_input_magics lines res)) (snd (ipython_input_magics lines res)) =
     res @ concat (map promote (filter (\<lambda>l. \<not> noop_directive l)
                                  (takeWhile (\<lambda>l. startswith l ''%'') lines)))
         @ concat (dropWhile (\<lambda>l. startswith l ''%'') lines)"
proof (induction lines arbitrary: res)
  case Nil
  then show ?case by simp
next
  case (Cons l lines)
  show ?case
  proof (cases "startswith l ''%''")
    case False
    then show ?thesis by (simp add: ipython_input_rest_concat)
  next
    case True
    then show ?thesis using Cons.IH by (simp add: Let_def noop_directive_def promote_def)
  qed
qed

lemma ipython_input_directive_rewrite: "ipython_input inp = directive_rewrite inp"
  using ipython_input_magics_rest [of "splitlines True inp" "[]"]
  by (cases "ipython_input_magics (splitlines True inp) []")
     (simp add: ipython_input_def directive_rewrite_def Let_def)

section \<open>The parse pass at the end of the document\<close>

text \<open>
  C1: a parse pass never raises; at the end of the document the pending narrative is
  emitted as a TextCell, and a cell whose middle or closing marker is missing is still
  emitted. The code does not do this. In each of the loop conditions the marker test comes
  before \<open>is_finished\<close>, and the marker test reads the line under the cursor: at the end
  of the document it raises IndexError. The document \<open>Hello\<close> yields no TextCell, and
  the truncated cell of the specification's scenario D yields no ComputeCell.
\<close>

theorem C1_end_of_document_raises:
  "cells unescape ''Hello'' = ([], Some IndexError)
   \<and> cells unescape ''{{{id=1|\<newline>foo\<newline>///\<newline>bar'' = ([], Some IndexError)
   \<and> cells unescape ''{{{id=1|\<newline>foo'' = ([], Some IndexError)"
  by code_simp

section \<open>The opening marker\<close>

text \<open>
  C2: \<open>is_cell_front\<close> is true exactly for the prefix, one or more digits and the bar,
  and every other line is ordinary content. The pattern of the code allows an empty run of
  digits, and the conversion of the captured run then fails: on the line \<open>{{{id=|\<close> the
  test neither answers true nor false, it raises ValueError, and so does the parse pass.
\<close>

theorem C2_empty_index_raises:
  "CELL_FRONT ''{{{id=|'' = Some []
   \<and> is_cell_front (WorksheetParser ''{{{id=|'') = Inl ValueError
   \<and> cells unescape ''{{{id=|'' = ([], Some ValueError)"
  by code_simp

section \<open>The directive rewrite\<close>

text \<open>
  C3: \<open>ipython_input\<close> drops each leading line that is, once stripped, one of
  \<open>%auto\<close>, \<open>%hide\<close>, \<open>%hideall\<close>, \<open>%save_server\<close>; turns every other leading line
  that begins with \<open>%\<close> into \<open>%\<close>, the stripped line and a newline; stops at the first
  line that does not begin with \<open>%\<close> and appends the remaining lines as they are. That
  is the function \<open>directive_rewrite\<close>. The input of scenario E is rewritten to
  \<open>%%time\<close>, newline, \<open>x=1\<close>.
\<close>

theorem C3_directive_rewrite:
  "ipython_input inp = directive_rewrite inp
   \<and> ipython_input ''%auto\<newline>%time\<newline>x=1'' = ''%%time\<newline>x=1''"
proof
  show "ipython_input inp = directive_rewrite inp"
    by (rule ipython_input_directive_rewrite)
  show "ipython_input ''%auto\<newline>%time\<newline>x=1'' = ''%%time\<newline>x=1''"
    by code_simp
qed

text \<open>
  C9: \<open>ipython_input\<close> returns its input unchanged when the input has no line or its
  first line does not begin with \<open>%\<close>.
\<close>

theorem C9_identity_without_directive:
  assumes "case splitlines True inp of [] \<Rightarrow> True | l # ls \<Rightarrow> \<not> startswith l ''%''"
  shows "ipython_input inp = inp"
proof (cases "splitlines True inp")
  case Nil
  have "concat (splitlines True inp) = inp" by (rule concat_splitlines)
  with Nil have "inp = []" by simp
  with Nil show ?thesis by (simp add: ipython_input_def)
next
  case (Cons l ls)
  with assms have "\<not> startswith l ''%''" by simp
  with Cons have "ipython_input inp = concat (splitlines True inp)"
    by (simp add: ipython_input_def ipython_input_rest_concat)
  then show ?thesis by (simp add: concat_splitlines)
qed

theorem C9_identity_without_directive_witness:
  "(case splitlines True ''x = 1\<newline>%time'' of [] \<Rightarrow> True | l # ls \<Rightarrow> \<not> startswith l ''%'')
   \<and> ipython_input ''x = 1\<newline>%time'' = ''x = 1\<newline>%time''"
proof -
  have h: "case splitlines True ''x = 1\<newline>%time'' of [] \<Rightarrow> True | l # ls \<Rightarrow> \<not> startswith l ''%''"
    by code_simp
  from h C9_identity_without_directive [OF h] show ?thesis by simp
qed

section \<open>The visible output\<close>

lemma replace_without_occurrence:
  "find t old = None \<Longrightarrow> old \<noteq> [] \<Longrightarrow> replace t old new = t"
  by (induction t) (auto split: if_splits)

lemma plain_text_output_loop_without_opening:
  "find s ''<html>'' = None \<Longrightarrow> plain_text_output_loop s t = t @ s"
  by (subst plain_text_output_loop.simps) simp

text \<open>
  C4: \<open>plain_text_output\<close> removes the regions between an opening and a closing tag
  and then the closing tags that are left; for scenario C it gives \<open>ac\<close>. The code
  looks for the closing tag from the start of the rest of the string, not from the opening
  tag. When a closing tag stands before the opening tag, the text before the opening tag
  is kept and the scan goes on behind that earlier closing tag, so the text between the two
  is emitted twice: \<open></html>b<html>c</html>\<close> gives \<open>bb\<close>, where removing the
  region and the stray closing tag gives \<open>b\<close>.
\<close>

theorem C4_text_before_opening_tag_duplicated:
  "plain_text_output ''</html>b<html>c</html>'' = ''bb''
   \<and> visible_output ''</html>b<html>c</html>'' = ''b''
   \<and> plain_text_output ''a<html>b</html>c'' = ''ac''"
  by code_simp

text \<open>
  C5: \<open>plain_text_output\<close> is idempotent. It is not: removing a closing tag can join the
  two halves of another one, which the single pass of \<open>replace\<close> leaves in the result
  and a second application removes.
\<close>

theorem C5_not_idempotent:
  "plain_text_output (plain_text_output ''</ht</html>ml>a'')
     \<noteq> plain_text_output ''</ht</html>ml>a''"
  by code_simp

text \<open>
  C5, amended: applying \<open>plain_text_output\<close> twice gives the same as applying it once
  whenever the result of the first application contains neither the opening nor the
  closing tag.
\<close>

theorem C5_idempotent_on_tag_free_result:
  assumes "find (plain_text_output out) ''<html>'' = None"
    and "find (plain_text_output out) ''</html>'' = None"
  shows "plain_text_output (plain_text_output out) = plain_text_output out"
proof -
  have "plain_text_output_loop (plain_text_output out) [] = plain_text_output out"
    using assms(1) by (simp add: plain_text_output_loop_without_opening)
  then show ?thesis
    using assms(2)
    by (simp add: plain_text_output_def [of "plain_text_output out"] replace_without_occurrence)
qed

theorem C5_idempotent_on_tag_free_result_witness:
  "find (plain_text_output ''a<html>b</html>c'') ''<html>'' = None
   \<and> find (plain_text_output ''a<html>b</html>c'') ''</html>'' = None
   \<and> plain_text_output (plain_text_output ''a<html>b</html>c'') = plain_text_output ''a<html>b</html>c''"
proof -
  have h1: "find (plain_text_output ''a<html>b</html>c'') ''<html>'' = None" by code_simp
  have h2: "find (plain_text_output ''a<html>b</html>c'') ''</html>'' = None" by code_simp
  from h1 h2 C5_idempotent_on_tag_free_result [OF h1 h2] show ?thesis by simp
qed

section \<open>Invariants of the parse pass\<close>

text \<open>The errors the primitives can raise.\<close>

lemma line_Inl: "line p = Inl e \<Longrightarrow> e = IndexError"
  by (simp add: line_def split: if_splits)

lemma is_cell_mid_Inl: "is_cell_mid p = Inl e \<Longrightarrow> e = IndexError"
  by (auto simp: is_cell_mid_def dest: line_Inl split: sum.splits)

lemma is_cell_back_Inl: "is_cell_back p = Inl e \<Longrightarrow> e = IndexError"
  by (auto simp: is_cell_back_def dest: line_Inl split: sum.splits)

lemma get_line_and_forward_Inl: "get_line_and_forward p = Inl e \<Longrightarrow> e = IndexError"
  by (auto simp: get_line_and_forward_def dest: line_Inl split: sum.splits)

lemma is_cell_front_Inl: "is_cell_front p = Inl e \<Longrightarrow> e \<noteq> AssertionError"
  by (auto simp: is_cell_front_def py_int_def dest: line_Inl split: sum.splits option.splits if_splits)

lemma digit_value_nonneg: "is_digit c \<Longrightarrow> 0 \<le> digit_value c"
  unfolding is_digit_def digit_value_def by (simp only: List.member_iff) auto

lemma foldl_digits_nonneg:
  "0 \<le> a \<Longrightarrow> list_all is_digit ds \<Longrightarrow> 0 \<le> foldl (\<lambda>a c. 10 * a + digit_value c) a ds"
proof (induction ds arbitrary: a)
  case Nil
  then show ?case by simp
next
  case (Cons c ds)
  from Cons.prems have "0 \<le> digit_value c" by (simp add: digit_value_nonneg)
  with Cons.prems have "0 \<le> 10 * a + digit_value c" by simp
  with Cons.IH [of "10 * a + digit_value c"] Cons.prems show ?case by simp
qed

lemma decimal_nonneg: "list_all is_digit ds \<Longrightarrow> 0 \<le> decimal ds"
  by (simp add: decimal_def foldl_digits_nonneg)

lemma CELL_FRONT_digits: "CELL_FRONT l = Some ds \<Longrightarrow> list_all is_digit ds"
  by (simp add: CELL_FRONT_def Let_def split: if_splits)

text \<open>
  Each loop is left only on its marker: at the end of the document the marker test raises
  before \<open>is_finished\<close> is looked at.
\<close>

lemma is_cell_front_True:
  assumes "is_cell_front p = Inr (True, p')"
  shows "0 \<le> index p'" and "is_cell_front p' = Inr (True, p')"
proof -
  from assms obtain l ds where l: "line p = Inr l" and ds: "CELL_FRONT l = Some ds"
    and p': "p' = p\<lparr>index := decimal ds\<rparr>" and ne: "ds \<noteq> []"
    by (auto simp: is_cell_front_def py_int_def split: sum.splits option.splits if_splits)
  from ds p' show "0 \<le> index p'"
    by (simp add: decimal_nonneg CELL_FRONT_digits)
  from l p' have "line p' = Inr l" by (simp add: line_def split: if_splits)
  with ds ne p' show "is_cell_front p' = Inr (True, p')"
    by (simp add: is_cell_front_def py_int_def)
qed


lemma try_read_text_loop_exit:
  "case try_read_text_loop p a of
     Inl e \<Rightarrow> e \<noteq> AssertionError
   | Inr (acc, p') \<Rightarrow> is_cell_front p' = Inr (True, p') \<and> 0 \<le> index p'"
proof (induction p a rule: try_read_text_loop.induct)
  case (1 p accumulator)
  show ?case
  proof (cases "is_cell_front p")
    case (Inl e)
    with is_cell_front_Inl [OF Inl] show ?thesis
      by (simp add: try_read_text_loop.simps [of p])
  next
    case (Inr r)
    obtain front p1 where r: "r = (front, p1)" by (cases r)
    note f = is_cell_front_Inr [OF Inr [unfolded r]]
    show ?thesis
    proof (cases front)
      case True
      with Inr r is_cell_front_True [of p p1] show ?thesis
        by (simp add: try_read_text_loop.simps [of p])
    next
      case False
      with f have nf: "\<not> is_finished p1" by (simp add: is_finished_def)
      show ?thesis
      proof (cases "get_line_and_forward p1")
        case (Inl e)
        with \<open>is_cell_front p = Inr r\<close> r False nf get_line_and_forward_Inl [OF Inl]
        show ?thesis
          by (simp add: try_read_text_loop.simps [of p])
      next
        case (Inr r2)
        obtain l p2 where r2: "r2 = (l, p2)" by (cases r2)
        from \<open>is_cell_front p = Inr r\<close> r False nf Inr r2
        have "try_read_text_loop p accumulator = try_read_text_loop p2 (accumulator @ [l])"
          by (simp add: try_read_text_loop.simps [of p])
        with "1.IH" [OF \<open>is_cell_front p = Inr r\<close> r [symmetric] False nf Inr r2 [symmetric]]
        show ?thesis by simp
      qed
    qed
  qed
qed

lemma read_cell_input_loop_exit:
  "case read_cell_input_loop p a of
     Inl e \<Rightarrow> e = IndexError
   | Inr (acc, p') \<Rightarrow> is_cell_mid p' = Inr True"
proof (induction p a rule: read_cell_input_loop.induct)
  case (1 p accumulator)
  show ?case
  proof (cases "is_cell_mid p")
    case (Inl e)
    with is_cell_mid_Inl [OF Inl] show ?thesis
      by (simp add: read_cell_input_loop.simps [of p])
  next
    case (Inr marker)
    show ?thesis
    proof (cases "marker \<or> is_finished p")
      case True
      with Inr is_cell_mid_Inr [OF Inr] show ?thesis
        by (auto simp: read_cell_input_loop.simps [of p] is_finished_def)
    next
      case False
      show ?thesis
      proof (cases "get_line_and_forward p")
        case (Inl e)
        with \<open>is_cell_mid p = Inr marker\<close> False get_line_and_forward_Inl [OF Inl]
        show ?thesis
          by (simp add: read_cell_input_loop.simps [of p])
      next
        case (Inr r)
        obtain l p1 where r: "r = (l, p1)" by (cases r)
        from \<open>is_cell_mid p = Inr marker\<close> False Inr r
        have "read_cell_input_loop p accumulator = read_cell_input_loop p1 (accumulator @ [l])"
          by (simp add: read_cell_input_loop.simps [of p])
        with "1.IH" [OF \<open>is_cell_mid p = Inr marker\<close> _ _ Inr r [symmetric]] False
        show ?thesis by simp
      qed
    qed
  qed
qed

lemma read_cell_output_loop_exit:
  "case read_cell_output_loop p a of
     Inl e \<Rightarrow> e = IndexError
   | Inr (acc, p') \<Rightarrow> is_cell_back p' = Inr True"
proof (induction p a rule: read_cell_output_loop.induct)
  case (1 p accumulator)
  show ?case
  proof (cases "is_cell_back p")
    case (Inl e)
    with is_cell_back_Inl [OF Inl] show ?thesis
      by (simp add: read_cell_output_loop.simps [of p])
  next
    case (Inr marker)
    show ?thesis
    proof (cases "marker \<or> is_finished p")
      case True
      with Inr is_cell_back_Inr [OF Inr] show ?thesis
        by (auto simp: read_cell_output_loop.simps [of p] is_finished_def)
    next
      case False
      show ?thesis
      proof (cases "get_line_and_forward p")
        case (Inl e)
        with \<open>is_cell_back p = Inr marker\<close> False get_line_and_forward_Inl [OF Inl]
        show ?thesis
          by (simp add: read_cell_output_loop.simps [of p])
      next
        case (Inr r)
        obtain l p1 where r: "r = (l, p1)" by (cases r)
        from \<open>is_cell_back p = Inr marker\<close> False Inr r
        have "read_cell_output_loop p accumulator = read_cell_output_loop p1 (accumulator @ [l])"
          by (simp add: read_cell_output_loop.simps [of p])
        with "1.IH" [OF \<open>is_cell_back p = Inr marker\<close> _ _ Inr r [symmetric]] False
        show ?thesis by simp
      qed
    qed
  qed
qed

lemma try_read_text_exit:
  "case try_read_text unescape p of
     Inl e \<Rightarrow> e \<noteq> AssertionError
   | Inr (t, p') \<Rightarrow> is_cell_front p' = Inr (True, p') \<and> 0 \<le> index p'"
  using try_read_text_loop_exit [of p "[]"]
  by (auto simp: try_read_text_def Let_def split: sum.splits prod.splits)

lemma read_cell_input_exit:
  assumes "is_cell_front p = Inr (True, p)"
  shows "case read_cell_input unescape p of
           Inl e \<Rightarrow> e = IndexError
         | Inr (x, p') \<Rightarrow> is_cell_mid p' = Inr True \<and> index p' = index p"
proof (cases "read_cell_input_loop (p\<lparr>pos := pos p + 1\<rparr>) []")
  case (Inl e)
  with read_cell_input_loop_exit [of "p\<lparr>pos := pos p + 1\<rparr>" "[]"] assms show ?thesis
    by (simp add: read_cell_input_def)
next
  case (Inr r)
  obtain acc p2 where r: "r = (acc, p2)" by (cases r)
  from read_cell_input_loop_exit [of "p\<lparr>pos := pos p + 1\<rparr>" "[]"] Inr r
  have "is_cell_mid p2 = Inr True" by simp
  moreover from read_cell_input_loop_pos [OF Inr [unfolded r]]
  have "index p2 = index p" by simp
  ultimately show ?thesis using assms Inr r by (simp add: read_cell_input_def)
qed

lemma read_cell_output_exit:
  assumes "is_cell_mid p = Inr True"
  shows "case read_cell_output unescape p of
           Inl e \<Rightarrow> e = IndexError
         | Inr (x, p') \<Rightarrow> is_cell_back p' = Inr True \<and> index p' = index p"
proof (cases "read_cell_output_loop (p\<lparr>pos := pos p + 1\<rparr>) []")
  case (Inl e)
  with read_cell_output_loop_exit [of "p\<lparr>pos := pos p + 1\<rparr>" "[]"] assms show ?thesis
    by (simp add: read_cell_output_def)
next
  case (Inr r)
  obtain acc p2 where r: "r = (acc, p2)" by (cases r)
  from read_cell_output_loop_exit [of "p\<lparr>pos := pos p + 1\<rparr>" "[]"] Inr r
  have "is_cell_back p2 = Inr True" by simp
  moreover from read_cell_output_loop_pos [OF Inr [unfolded r]]
  have "index p2 = index p" by simp
  ultimately show ?thesis using assms Inr r by (simp add: read_cell_output_def)
qed

lemma read_cell_exit:
  assumes "is_cell_front p = Inr (True, p)" and "0 \<le> index p"
  shows "case read_cell unescape p of
           Inl e \<Rightarrow> e = IndexError
         | Inr (c, p') \<Rightarrow> index_ok c \<and> is_cell_back p' = Inr True"
proof (cases "read_cell_input unescape p")
  case (Inl e)
  with read_cell_input_exit [OF assms(1), of unescape] show ?thesis
    by (simp add: read_cell_def)
next
  case (Inr r)
  obtain inp p1 where r: "r = (inp, p1)" by (cases r)
  from read_cell_input_exit [OF assms(1), of unescape] Inr r
  have mid: "is_cell_mid p1 = Inr True" and i1: "index p1 = index p" by simp_all
  show ?thesis
  proof (cases "read_cell_output unescape p1")
    case (Inl e)
    with read_cell_output_exit [OF mid, of unescape] \<open>read_cell_input unescape p = Inr r\<close> r
    show ?thesis by (simp add: read_cell_def)
  next
    case (Inr r2)
    obtain out p2 where r2: "r2 = (out, p2)" by (cases r2)
    from read_cell_output_exit [OF mid, of unescape] Inr r2
    have "is_cell_back p2 = Inr True" and "index p2 = index p1" by simp_all
    with i1 assms(2) \<open>read_cell_input unescape p = Inr r\<close> r Inr r2 show ?thesis
      by (simp add: read_cell_def new_ComputeCell_def)
  qed
qed

lemma fst_yield: "fst (yield ys r) = ys @ fst r"
  by (simp add: yield_def)

lemma snd_yield: "snd (yield ys r) = snd r"
  by (simp add: yield_def)

lemma try_read_text_loop_count:
  "try_read_text_loop p a = Inr (acc, p') \<Longrightarrow> length acc + pos p = length a + pos p'"
proof (induction p a rule: try_read_text_loop.induct)
  case (1 p accumulator)
  show ?case
  proof (cases "is_cell_front p")
    case (Inl e)
    with "1.prems" show ?thesis by (simp add: try_read_text_loop.simps [of p])
  next
    case (Inr r)
    obtain front p1 where r: "r = (front, p1)" by (cases r)
    note f = is_cell_front_Inr [OF Inr [unfolded r]]
    show ?thesis
    proof (cases "front \<or> is_finished p1")
      case True
      with "1.prems" Inr r f show ?thesis
        by (auto simp: try_read_text_loop.simps [of p] split: if_splits)
    next
      case False
      show ?thesis
      proof (cases "get_line_and_forward p1")
        case (Inl e)
        with "1.prems" Inr r False show ?thesis
          by (simp add: try_read_text_loop.simps [of p])
      next
        case (Inr r2)
        obtain l p2 where r2: "r2 = (l, p2)" by (cases r2)
        note g = get_line_and_forward_Inr [OF Inr [unfolded r2]]
        from "1.prems" \<open>is_cell_front p = Inr r\<close> r False Inr r2
        have "try_read_text_loop p2 (accumulator @ [l]) = Inr (acc, p')"
          by (simp add: try_read_text_loop.simps [of p])
        with "1.IH" [OF \<open>is_cell_front p = Inr r\<close> r [symmetric] _ _ Inr r2 [symmetric]] False
        have "length acc + pos p2 = length (accumulator @ [l]) + pos p'" by simp
        with f g show ?thesis by simp
      qed
    qed
  qed
qed

lemma strip_Nil: "strip [] = []"
  by (simp add: strip_def)

lemma try_read_text_yield:
  assumes "try_read_text unescape p = Inr (t, p')"
  shows "length (case t of Some c \<Rightarrow> [c] | None \<Rightarrow> []) + pos p \<le> pos p'"
proof -
  from assms obtain acc where loop: "try_read_text_loop p [] = Inr (acc, p')"
    and t: "t = (if strip (join ''\<newline>'' acc) \<noteq> []
                 then Some (TextCell (unescape (strip (join ''\<newline>'' acc)))) else None)"
    by (auto simp: try_read_text_def Let_def split: sum.splits prod.splits if_splits)
  from try_read_text_loop_count [OF loop] have n: "length acc + pos p = pos p'" by simp
  show ?thesis
  proof (cases acc)
    case Nil
    with t n show ?thesis by (simp add: strip_Nil)
  next
    case (Cons a as)
    with t n show ?thesis by simp
  qed
qed

lemma iter_length:
  "length (fst (iter unescape p)) \<le> length (worksheet_lines p) - pos p"
proof (induction unescape p rule: iter.induct)
  case (1 unescape p)
  show ?case
  proof (cases "is_finished p")
    case True
    then show ?thesis by (simp add: iter.simps [of unescape p])
  next
    case nf: False
    show ?thesis
    proof (cases "try_read_text unescape p")
      case (Inl e)
      with nf show ?thesis
        by (simp add: iter.simps [of unescape p])
    next
      case (Inr r)
      obtain tcell p1 where r: "r = (tcell, p1)" by (cases r)
      let ?ys = "case tcell of Some t \<Rightarrow> [t] | None \<Rightarrow> []"
      from try_read_text_exit [of unescape p] Inr r
      have front: "is_cell_front p1 = Inr (True, p1)" and i1: "0 \<le> index p1" by simp_all
      from is_cell_front_Inr [OF front] have p1_in: "pos p1 < length (worksheet_lines p1)" by simp
      from try_read_text_pos [OF Inr [unfolded r]]
      have l1: "worksheet_lines p1 = worksheet_lines p" by simp
      from try_read_text_yield [OF Inr [unfolded r]]
      have ys: "length ?ys + pos p \<le> pos p1" .
      show ?thesis
      proof (cases "read_cell unescape p1")
        case (Inl e)
        with nf \<open>try_read_text unescape p = Inr r\<close> r ys p1_in l1
        show ?thesis
          by (simp add: iter.simps [of unescape p] fst_yield)
      next
        case (Inr r2)
        obtain c p2 where r2: "r2 = (c, p2)" by (cases r2)
        from read_cell_exit [OF front i1, of unescape] Inr r2
        have isback: "is_cell_back p2 = Inr True" by simp
        from is_cell_back_Inr [OF isback] have p2_in: "pos p2 < length (worksheet_lines p2)" .
        then have nf2: "\<not> is_finished p2" by (simp add: is_finished_def)
        from read_cell_pos [OF Inr [unfolded r2]]
        have step: "pos p1 + 2 \<le> pos p2" and l2: "worksheet_lines p2 = worksheet_lines p1"
          by simp_all
        let ?p3 = "p2\<lparr>pos := pos p2 + 1\<rparr>"
        have it: "iter unescape p = yield ?ys (yield [c] (iter unescape ?p3))"
          using nf \<open>try_read_text unescape p = Inr r\<close> r Inr r2 isback nf2
          by (simp add: iter.simps [of unescape p])
        from "1.IH"(1) [OF nf \<open>try_read_text unescape p = Inr r\<close> r [symmetric] Inr r2 [symmetric] nf2 isback]
        have "length (fst (iter unescape ?p3)) \<le> length (worksheet_lines ?p3) - pos ?p3"
          by simp
        with it ys step l1 l2 p2_in show ?thesis
          by (simp add: fst_yield)
      qed
    qed
  qed
qed

text \<open>
  C8: every ComputeCell that a parse pass yields has an index that is not negative. The
  index is the decimal value of the digits captured by the last match of the opening
  marker, so the assertion in the constructor never fails: a pass raises no
  AssertionError.
\<close>

theorem C8_index_nonneg:
  "list_all index_ok (fst (iter unescape p)) \<and> snd (iter unescape p) \<noteq> Some AssertionError"
proof (induction unescape p rule: iter.induct)
  case (1 unescape p)
  show ?case
  proof (cases "is_finished p")
    case True
    then show ?thesis by (simp add: iter.simps [of unescape p])
  next
    case nf: False
    show ?thesis
    proof (cases "try_read_text unescape p")
      case (Inl e)
      with try_read_text_exit [of unescape p] nf show ?thesis
        by (simp add: iter.simps [of unescape p])
    next
      case (Inr r)
      obtain tcell p1 where r: "r = (tcell, p1)" by (cases r)
      from try_read_text_exit [of unescape p] Inr r
      have front: "is_cell_front p1 = Inr (True, p1)" and i1: "0 \<le> index p1" by simp_all
      have text_ok: "list_all index_ok (case tcell of Some t \<Rightarrow> [t] | None \<Rightarrow> [])"
        using Inr r by (auto simp: try_read_text_def Let_def split: sum.splits prod.splits if_splits)
      show ?thesis
      proof (cases "read_cell unescape p1")
        case (Inl e)
        with read_cell_exit [OF front i1, of unescape] nf \<open>try_read_text unescape p = Inr r\<close> r text_ok
        show ?thesis
          by (simp add: iter.simps [of unescape p] fst_yield snd_yield)
      next
        case (Inr r2)
        obtain c p2 where r2: "r2 = (c, p2)" by (cases r2)
        from read_cell_exit [OF front i1, of unescape] Inr r2
        have c: "index_ok c" and isback: "is_cell_back p2 = Inr True" by simp_all
        let ?p3 = "if \<not> is_finished p2 then p2\<lparr>pos := pos p2 + 1\<rparr> else p2"
        have it: "iter unescape p =
                    yield (case tcell of Some t \<Rightarrow> [t] | None \<Rightarrow> []) (yield [c] (iter unescape ?p3))"
          using nf \<open>try_read_text unescape p = Inr r\<close> r Inr r2 isback
          by (simp add: iter.simps [of unescape p])
        have ih: "list_all index_ok (fst (iter unescape ?p3))
                  \<and> snd (iter unescape ?p3) \<noteq> Some AssertionError"
        proof (cases "is_finished p2")
          case True
          with "1.IH"(2) [OF nf \<open>try_read_text unescape p = Inr r\<close> r [symmetric] Inr r2 [symmetric]]
          show ?thesis by simp
        next
          case False
          with "1.IH"(1) [OF nf \<open>try_read_text unescape p = Inr r\<close> r [symmetric] Inr r2 [symmetric] _ isback]
          show ?thesis by simp
        qed
        with it text_ok c show ?thesis
          by (simp add: fst_yield snd_yield)
      qed
    qed
  qed
qed

text \<open>Every cell that is yielded has consumed at least one line.\<close>

text \<open>
  C10: a parse pass terminates on every document. The functions of the pass are total:
  their recursion is well-founded on the number of lines behind the cursor. The cursor
  moves forward by one on a consumed line, never moves back in \<open>_try_read_text\<close>,
  moves forward by at least the two markers in \<open>_read_cell\<close>, and the pass yields at
  most as many cells as there are lines behind the cursor.
\<close>

theorem C10_cursor_moves_forward:
  "(get_line_and_forward p = Inr (l, p1) \<longrightarrow> pos p1 = pos p + 1)
   \<and> (try_read_text unescape p = Inr (t, p2) \<longrightarrow> pos p \<le> pos p2)
   \<and> (read_cell unescape p = Inr (c, p3) \<longrightarrow> pos p + 2 \<le> pos p3)
   \<and> length (fst (iter unescape p)) \<le> length (worksheet_lines p) - pos p"
  using get_line_and_forward_Inr [of p l p1] try_read_text_pos [of unescape p t p2]
    read_cell_pos [of unescape p c p3] iter_length [of unescape p]
  by simp

theorem C10_cursor_moves_forward_witness:
  "(get_line_and_forward (WorksheetParser ''{{{id=3|\<newline>x = 1\<newline>///\<newline>4\<newline>}}}'')
      = Inr (''{{{id=3|'', \<lparr>worksheet_lines = [''{{{id=3|'', ''x = 1'', ''///'', ''4'', ''}}}''], pos = 1, index = - 1\<rparr>)
    \<and> try_read_text (\<lambda>s. s) (WorksheetParser ''{{{id=3|\<newline>x = 1\<newline>///\<newline>4\<newline>}}}'')
      = Inr (None, \<lparr>worksheet_lines = [''{{{id=3|'', ''x = 1'', ''///'', ''4'', ''}}}''], pos = 0, index = 3\<rparr>)
    \<and> read_cell (\<lambda>s. s) (WorksheetParser ''{{{id=3|\<newline>x = 1\<newline>///\<newline>4\<newline>}}}'')
      = Inr (ComputeCell 3 ''x = 1'' ''4'',
             \<lparr>worksheet_lines = [''{{{id=3|'', ''x = 1'', ''///'', ''4'', ''}}}''], pos = 4, index = 3\<rparr>))
   \<and> length (fst (iter (\<lambda>s. s) (WorksheetParser ''{{{id=3|\<newline>x = 1\<newline>///\<newline>4\<newline>}}}'')))
       \<le> length (worksheet_lines (WorksheetParser ''{{{id=3|\<newline>x = 1\<newline>///\<newline>4\<newline>}}}''))
          - pos (WorksheetParser ''{{{id=3|\<newline>x = 1\<newline>///\<newline>4\<newline>}}}'')"
proof -
  let ?p = "WorksheetParser ''{{{id=3|\<newline>x = 1\<newline>///\<newline>4\<newline>}}}''"
  let ?L = "[''{{{id=3|'', ''x = 1'', ''///'', ''4'', ''}}}'']"
  have h1: "get_line_and_forward ?p = Inr (''{{{id=3|'', \<lparr>worksheet_lines = ?L, pos = 1, index = - 1\<rparr>)"
    by code_simp
  have h2: "try_read_text (\<lambda>s. s) ?p = Inr (None, \<lparr>worksheet_lines = ?L, pos = 0, index = 3\<rparr>)"
    by code_simp
  have h3: "read_cell (\<lambda>s. s) ?p = Inr (ComputeCell 3 ''x = 1'' ''4'', \<lparr>worksheet_lines = ?L, pos = 4, index = 3\<rparr>)"
    by code_simp
  from h1 h2 h3
    C10_cursor_moves_forward [of ?p "''{{{id=3|''" "\<lparr>worksheet_lines = ?L, pos = 1, index = - 1\<rparr>"
      "\<lambda>s. s" None "\<lparr>worksheet_lines = ?L, pos = 0, index = 3\<rparr>"
      "ComputeCell 3 ''x = 1'' ''4''" "\<lparr>worksheet_lines = ?L, pos = 4, index = 3\<rparr>"]
  show ?thesis by blast
qed

section \<open>Well-formed worksheets\<close>

lemma line_at_cursor:
  assumes "drop (pos p) (worksheet_lines p) = l # rest"
  shows "line p = Inr l" and "\<not> is_finished p"
    and "drop (pos p + 1) (worksheet_lines p) = rest"
proof -
  from assms have len: "pos p < length (worksheet_lines p)"
    by (cases "pos p < length (worksheet_lines p)") auto
  moreover from assms have "worksheet_lines p ! pos p = l"
    by (rule nth_via_drop)
  ultimately show "line p = Inr l" by (simp add: line_def)
  from len show "\<not> is_finished p" by (simp add: is_finished_def)
  have "drop (pos p + 1) (worksheet_lines p) = tl (drop (pos p) (worksheet_lines p))"
    by (simp add: drop_Suc tl_drop)
  with assms show "drop (pos p + 1) (worksheet_lines p) = rest" by simp
qed

lemma try_read_text_loop_run:
  assumes "drop (pos p) (worksheet_lines p) = narrative @ front # rest"
    and "list_all (\<lambda>l. CELL_FRONT l = None) narrative"
    and "CELL_FRONT front = Some ds" and "ds \<noteq> []"
  shows "try_read_text_loop p a =
           Inr (a @ narrative, p\<lparr>pos := pos p + length narrative, index := decimal ds\<rparr>)"
  using assms(1,2)
proof (induction narrative arbitrary: p a)
  case Nil
  then have "line p = Inr front" using line_at_cursor(1) [of p front rest] by simp
  with assms(3,4) have "is_cell_front p = Inr (True, p\<lparr>index := decimal ds\<rparr>)"
    by (simp add: is_cell_front_def py_int_def)
  then show ?case by (simp add: try_read_text_loop.simps [of p])
next
  case (Cons l ls)
  from Cons.prems(1) have d: "drop (pos p) (worksheet_lines p) = l # (ls @ front # rest)" by simp
  note c = line_at_cursor [OF d]
  from Cons.prems(2) have l: "CELL_FRONT l = None" by simp
  with c(1) have f: "is_cell_front p = Inr (False, p)" by (simp add: is_cell_front_def)
  from c(1) have g: "get_line_and_forward p = Inr (l, p\<lparr>pos := pos p + 1\<rparr>)"
    by (simp add: get_line_and_forward_def)
  have "try_read_text_loop (p\<lparr>pos := pos p + 1\<rparr>) (a @ [l]) =
          Inr ((a @ [l]) @ ls,
               (p\<lparr>pos := pos p + 1\<rparr>)\<lparr>pos := pos (p\<lparr>pos := pos p + 1\<rparr>) + length ls,
                                         index := decimal ds\<rparr>)"
    using Cons.prems(2) c(3) by (intro Cons.IH) simp_all
  with f g c(2) show ?case by (simp add: try_read_text_loop.simps [of p])
qed

lemma read_cell_input_loop_run:
  assumes "drop (pos p) (worksheet_lines p) = inp @ mid # rest"
    and "list_all (\<lambda>l. \<not> CELL_MID l) inp" and "CELL_MID mid"
  shows "read_cell_input_loop p a = Inr (a @ inp, p\<lparr>pos := pos p + length inp\<rparr>)"
  using assms(1,2)
proof (induction inp arbitrary: p a)
  case Nil
  then have "line p = Inr mid" using line_at_cursor(1) [of p mid rest] by simp
  with assms(3) have "is_cell_mid p = Inr True" by (simp add: is_cell_mid_def)
  then show ?case by (simp add: read_cell_input_loop.simps [of p])
next
  case (Cons l ls)
  from Cons.prems(1) have d: "drop (pos p) (worksheet_lines p) = l # (ls @ mid # rest)" by simp
  note c = line_at_cursor [OF d]
  from Cons.prems(2) c(1) have f: "is_cell_mid p = Inr False" by (simp add: is_cell_mid_def)
  from c(1) have g: "get_line_and_forward p = Inr (l, p\<lparr>pos := pos p + 1\<rparr>)"
    by (simp add: get_line_and_forward_def)
  have "read_cell_input_loop (p\<lparr>pos := pos p + 1\<rparr>) (a @ [l]) =
          Inr ((a @ [l]) @ ls,
               (p\<lparr>pos := pos p + 1\<rparr>)\<lparr>pos := pos (p\<lparr>pos := pos p + 1\<rparr>) + length ls\<rparr>)"
    using Cons.prems(2) c(3) by (intro Cons.IH) simp_all
  with f g c(2) show ?case by (simp add: read_cell_input_loop.simps [of p])
qed

lemma read_cell_output_loop_run:
  assumes "drop (pos p) (worksheet_lines p) = out @ closing # rest"
    and "list_all (\<lambda>l. \<not> CELL_BACK l) out" and "CELL_BACK closing"
  shows "read_cell_output_loop p a = Inr (a @ out, p\<lparr>pos := pos p + length out\<rparr>)"
  using assms(1,2)
proof (induction out arbitrary: p a)
  case Nil
  then have "line p = Inr closing" using line_at_cursor(1) [of p closing rest] by simp
  with assms(3) have "is_cell_back p = Inr True" by (simp add: is_cell_back_def)
  then show ?case by (simp add: read_cell_output_loop.simps [of p])
next
  case (Cons l ls)
  from Cons.prems(1) have d: "drop (pos p) (worksheet_lines p) = l # (ls @ closing # rest)" by simp
  note c = line_at_cursor [OF d]
  from Cons.prems(2) c(1) have f: "is_cell_back p = Inr False" by (simp add: is_cell_back_def)
  from c(1) have g: "get_line_and_forward p = Inr (l, p\<lparr>pos := pos p + 1\<rparr>)"
    by (simp add: get_line_and_forward_def)
  have "read_cell_output_loop (p\<lparr>pos := pos p + 1\<rparr>) (a @ [l]) =
          Inr ((a @ [l]) @ ls,
               (p\<lparr>pos := pos p + 1\<rparr>)\<lparr>pos := pos (p\<lparr>pos := pos p + 1\<rparr>) + length ls\<rparr>)"
    using Cons.prems(2) c(3) by (intro Cons.IH) simp_all
  with f g c(2) show ?case by (simp add: read_cell_output_loop.simps [of p])
qed

lemma CELL_FRONT_marker:
  "list_all is_digit ds \<Longrightarrow> CELL_FRONT (''{{{id='' @ ds @ ''|'') = Some ds"
  by (simp add: CELL_FRONT_def before_dollar_def)

lemma CELL_MID_marker: "CELL_MID ''///''"
  by (simp add: CELL_MID_def before_dollar_def)

lemma CELL_BACK_marker: "CELL_BACK ''}}}''"
  by (simp add: CELL_BACK_def before_dollar_def)

lemma drop_append_cursor:
  assumes "drop n xs = ys @ zs"
  shows "drop (n + length ys) xs = zs"
proof -
  have "drop (n + length ys) xs = drop (length ys) (drop n xs)"
    by (simp add: add.commute)
  with assms show ?thesis by simp
qed

lemma iter_segment:
  assumes ok: "segment_ok (narrative, ds, inp, out)"
    and lines: "drop (pos p) (worksheet_lines p) = segment_lines (narrative, ds, inp, out) @ rest"
  shows "iter unescape p =
           yield (segment_cells unescape (narrative, ds, inp, out))
             (iter unescape
                (p\<lparr>pos := pos p + length (segment_lines (narrative, ds, inp, out)),
                   index := decimal ds\<rparr>))"
proof -
  let ?front = "''{{{id='' @ ds @ ''|''"
  let ?L = "worksheet_lines p"
  from ok have nar: "list_all (\<lambda>l. CELL_FRONT l = None) narrative" and ne: "ds \<noteq> []"
    and dig: "list_all is_digit ds" and inp: "list_all (\<lambda>l. \<not> CELL_MID l) inp"
    and out: "list_all (\<lambda>l. \<not> CELL_BACK l) out"
    by simp_all
  note front = CELL_FRONT_marker [OF dig]
  \<comment> \<open>the narrative\<close>
  from lines have d0: "drop (pos p) ?L = narrative @ ?front # (inp @ ''///'' # out @ ''}}}'' # rest)"
    by simp
  have nf: "\<not> is_finished p"
  proof (cases narrative)
    case Nil
    with d0 show ?thesis using line_at_cursor(2) [of p ?front] by simp
  next
    case (Cons l ls)
    with d0 show ?thesis using line_at_cursor(2) [of p l] by simp
  qed
  let ?p1 = "p\<lparr>pos := pos p + length narrative, index := decimal ds\<rparr>"
  have t: "try_read_text_loop p [] = Inr (narrative, ?p1)"
    using try_read_text_loop_run [OF d0 nar front ne, of "[]"] by simp
  let ?ys = "if strip (join ''\<newline>'' narrative) \<noteq> []
             then [TextCell (unescape (strip (join ''\<newline>'' narrative)))] else []"
  have trt: "try_read_text unescape p =
               Inr (if strip (join ''\<newline>'' narrative) \<noteq> []
                    then Some (TextCell (unescape (strip (join ''\<newline>'' narrative)))) else None, ?p1)"
    using t by (simp add: try_read_text_def Let_def)
  \<comment> \<open>the opening marker and the input\<close>
  have d1: "drop (pos ?p1) (worksheet_lines ?p1) = ?front # (inp @ ''///'' # out @ ''}}}'' # rest)"
    using drop_append_cursor [OF d0] by simp
  note c1 = line_at_cursor [OF d1]
  from c1(1) front ne have f1: "is_cell_front ?p1 = Inr (True, ?p1)"
    by (simp add: is_cell_front_def py_int_def)
  let ?p1' = "?p1\<lparr>pos := pos ?p1 + 1\<rparr>"
  have d1': "drop (pos ?p1') (worksheet_lines ?p1') = inp @ ''///'' # (out @ ''}}}'' # rest)"
    using c1(3) by simp
  let ?p2 = "?p1'\<lparr>pos := pos ?p1' + length inp\<rparr>"
  have i: "read_cell_input_loop ?p1' [] = Inr (inp, ?p2)"
    using read_cell_input_loop_run [OF d1' inp CELL_MID_marker, of "[]"] by simp
  have rci: "read_cell_input unescape ?p1 = Inr (unescape (strip (join ''\<newline>'' inp)), ?p2)"
    using f1 i by (simp add: read_cell_input_def)
  \<comment> \<open>the middle marker and the output\<close>
  have d2: "drop (pos ?p2) (worksheet_lines ?p2) = ''///'' # (out @ ''}}}'' # rest)"
    using drop_append_cursor [OF d1'] by simp
  note c2 = line_at_cursor [OF d2]
  from c2(1) have m2: "is_cell_mid ?p2 = Inr True"
    by (simp add: is_cell_mid_def CELL_MID_marker)
  let ?p2' = "?p2\<lparr>pos := pos ?p2 + 1\<rparr>"
  have d2': "drop (pos ?p2') (worksheet_lines ?p2') = out @ ''}}}'' # rest"
    using c2(3) by simp
  let ?p3 = "?p2'\<lparr>pos := pos ?p2' + length out\<rparr>"
  have o: "read_cell_output_loop ?p2' [] = Inr (out, ?p3)"
    using read_cell_output_loop_run [OF d2' out CELL_BACK_marker, of "[]"] by simp
  have rco: "read_cell_output unescape ?p2 = Inr (unescape (strip (join ''\<newline>'' out)), ?p3)"
    using m2 o by (simp add: read_cell_output_def)
  \<comment> \<open>the cell and the closing marker\<close>
  let ?c = "ComputeCell (decimal ds) (unescape (strip (join ''\<newline>'' inp)))
              (unescape (strip (join ''\<newline>'' out)))"
  have rc: "read_cell unescape ?p1 = Inr (?c, ?p3)"
    using rci rco decimal_nonneg [OF dig] by (simp add: read_cell_def new_ComputeCell_def)
  have d3: "drop (pos ?p3) (worksheet_lines ?p3) = ''}}}'' # rest"
    using drop_append_cursor [OF d2'] by simp
  note c3 = line_at_cursor [OF d3]
  from c3(1) have b3: "is_cell_back ?p3 = Inr True"
    by (simp add: is_cell_back_def CELL_BACK_marker)
  have "iter unescape p =
          yield (case (if strip (join ''\<newline>'' narrative) \<noteq> []
                       then Some (TextCell (unescape (strip (join ''\<newline>'' narrative)))) else None)
                 of Some t \<Rightarrow> [t] | None \<Rightarrow> [])
            (yield [?c] (iter unescape (?p3\<lparr>pos := pos ?p3 + 1\<rparr>)))"
    using nf trt rc c3(2) b3 by (simp add: iter.simps [of unescape p])
  also have "\<dots> = yield (segment_cells unescape (narrative, ds, inp, out))
                     (iter unescape (?p3\<lparr>pos := pos ?p3 + 1\<rparr>))"
    by (simp add: yield_def)
  also have "?p3\<lparr>pos := pos ?p3 + 1\<rparr> =
               p\<lparr>pos := pos p + length (segment_lines (narrative, ds, inp, out)),
                 index := decimal ds\<rparr>"
    by simp
  finally show ?thesis .
qed

lemma iter_segments:
  assumes "list_all segment_ok segs"
    and "drop (pos p) (worksheet_lines p) = concat (map segment_lines segs)"
  shows "iter unescape p = (concat (map (segment_cells unescape) segs), None)"
  using assms
proof (induction segs arbitrary: p)
  case Nil
  then have "is_finished p" by (simp add: is_finished_def)
  then show ?case by (simp add: iter.simps [of unescape p])
next
  case (Cons seg segs)
  obtain narrative ds inp out where seg: "seg = (narrative, ds, inp, out)"
    by (cases seg)
  from Cons.prems seg have ok: "segment_ok (narrative, ds, inp, out)"
    and d: "drop (pos p) (worksheet_lines p) =
              segment_lines (narrative, ds, inp, out) @ concat (map segment_lines segs)"
    by simp_all
  let ?p' = "p\<lparr>pos := pos p + length (segment_lines (narrative, ds, inp, out)), index := decimal ds\<rparr>"
  have "drop (pos ?p') (worksheet_lines ?p') = concat (map segment_lines segs)"
    using drop_append_cursor [OF d] by simp
  with Cons.prems(1) have "iter unescape ?p' = (concat (map (segment_cells unescape) segs), None)"
    by (intro Cons.IH) simp_all
  with iter_segment [OF ok d, of unescape] seg show ?case
    by (simp add: yield_def)
qed

lemma splitlines_join:
  assumes "list_all (list_all (\<lambda>c. \<not> is_linebreak c)) ls"
    and "ls \<noteq> [] \<Longrightarrow> last ls \<noteq> []"
  shows "splitlines False (join ''\<newline>'' ls) = ls"
  using assms
proof (induction ls)
  case Nil
  show ?case by (simp add: splitlines_Nil)
next
  case (Cons x xs)
  show ?case
  proof (cases xs)
    case Nil
    with Cons.prems have "x \<noteq> []" and "dropWhile (\<lambda>c. \<not> is_linebreak c) x = []"
      by (simp_all add: list_all_iff)
    with Nil show ?thesis by (simp add: splitlines_last_line)
  next
    case (Cons y ys)
    from Cons.prems(1)
    have x: "takeWhile (\<lambda>c. \<not> is_linebreak c) (x @ ''\<newline>'' @ join ''\<newline>'' xs) = x"
      and d: "dropWhile (\<lambda>c. \<not> is_linebreak c) (x @ ''\<newline>'' @ join ''\<newline>'' xs)
               = CHR ''\<newline>'' # join ''\<newline>'' xs"
      by (simp_all add: list_all_iff takeWhile_append2 dropWhile_append2 is_linebreak_def)
    have "splitlines False (join ''\<newline>'' xs) = xs"
      using Cons.prems Cons by (intro Cons.IH) simp_all
    with splitlines_break [OF d, of False] x Cons show ?thesis by simp
  qed
qed

lemma last_segment_lines:
  "segs \<noteq> [] \<Longrightarrow> concat (map segment_lines segs) \<noteq> []
     \<and> last (concat (map segment_lines segs)) = ''}}}''"
proof (induction segs)
  case Nil
  then show ?case by simp
next
  case (Cons seg segs)
  obtain narrative ds inp out where seg: "seg = (narrative, ds, inp, out)"
    by (cases seg)
  show ?case
  proof (cases "segs = []")
    case True
    with seg show ?thesis by simp
  next
    case False
    with Cons.IH seg show ?thesis by simp
  qed
qed

lemma WorksheetParser_segments:
  assumes "list_all (list_all (\<lambda>c. \<not> is_linebreak c)) (concat (map segment_lines segs))"
  shows "WorksheetParser (join ''\<newline>'' (concat (map segment_lines segs)))
           = \<lparr>worksheet_lines = concat (map segment_lines segs), pos = 0, index = - 1\<rparr>"
proof -
  have "splitlines False (join ''\<newline>'' (concat (map segment_lines segs)))
          = concat (map segment_lines segs)"
  proof (rule splitlines_join [OF assms])
    assume "concat (map segment_lines segs) \<noteq> []"
    then have "segs \<noteq> []" by auto
    from last_segment_lines [OF this] show "last (concat (map segment_lines segs)) \<noteq> []"
      by simp
  qed
  then show ?thesis by (simp add: WorksheetParser_def)
qed

text \<open>
  For every well-formed sequence of segments the pass over its lines yields, segment by
  segment, exactly the cells of the segment, a TextCell that is not blank directly before
  the ComputeCell of its segment, and ends without an error; the same holds for the
  document that joins these lines with newlines, as long as no line contains a line
  boundary.
\<close>

lemma well_formed_worksheet_cells:
  "(list_all segment_ok segs \<longrightarrow>
      iter unescape \<lparr>worksheet_lines = concat (map segment_lines segs), pos = 0, index = - 1\<rparr>
        = (concat (map (segment_cells unescape) segs), None))
   \<and> (list_all segment_ok segs
        \<and> list_all (list_all (\<lambda>c. \<not> is_linebreak c)) (concat (map segment_lines segs)) \<longrightarrow>
      cells unescape (join ''\<newline>'' (concat (map segment_lines segs)))
        = (concat (map (segment_cells unescape) segs), None))
   \<and> cells unescape ''{{{id=3|\<newline>x = 1\<newline>///\<newline>4\<newline>}}}''
        = ([ComputeCell 3 (unescape ''x = 1'') (unescape ''4'')], None)"
proof (intro conjI impI)
  let ?p = "\<lparr>worksheet_lines = concat (map segment_lines segs), pos = 0, index = - 1\<rparr>"
  show "iter unescape ?p = (concat (map (segment_cells unescape) segs), None)"
    if "list_all segment_ok segs"
    using iter_segments [OF that, of ?p unescape] by simp
  show "cells unescape (join ''\<newline>'' (concat (map segment_lines segs)))
          = (concat (map (segment_cells unescape) segs), None)"
    if "list_all segment_ok segs
        \<and> list_all (list_all (\<lambda>c. \<not> is_linebreak c)) (concat (map segment_lines segs))"
  proof -
    from that have ok: "list_all segment_ok segs"
      and nb: "list_all (list_all (\<lambda>c. \<not> is_linebreak c)) (concat (map segment_lines segs))"
      by simp_all
    show ?thesis
      using iter_segments [OF ok, of ?p unescape] WorksheetParser_segments [OF nb]
      by (simp add: cells_def)
  qed
  show "cells unescape ''{{{id=3|\<newline>x = 1\<newline>///\<newline>4\<newline>}}}''
        = ([ComputeCell 3 (unescape ''x = 1'') (unescape ''4'')], None)"
    by code_simp
qed

lemma well_formed_worksheet_cells_scenario_B:
  "list_all segment_ok [([''Hello''], ''0'', [''%hide'', ''print(1)''], [''1''])]
   \<and> list_all (list_all (\<lambda>c. \<not> is_linebreak c))
        (concat (map segment_lines [([''Hello''], ''0'', [''%hide'', ''print(1)''], [''1''])]))
   \<and> iter (\<lambda>s. s)
        \<lparr>worksheet_lines = [''Hello'', ''{{{id=0|'', ''%hide'', ''print(1)'', ''///'', ''1'', ''}}}''],
         pos = 0, index = - 1\<rparr>
       = ([TextCell ''Hello'', ComputeCell 0 ''%hide\<newline>print(1)'' ''1''], None)
   \<and> cells (\<lambda>s. s) ''Hello\<newline>{{{id=0|\<newline>%hide\<newline>print(1)\<newline>///\<newline>1\<newline>}}}''
       = ([TextCell ''Hello'', ComputeCell 0 ''%hide\<newline>print(1)'' ''1''], None)
   \<and> cells (\<lambda>s. s) ''{{{id=3|\<newline>x = 1\<newline>///\<newline>4\<newline>}}}''
        = ([ComputeCell 3 ''x = 1'' ''4''], None)"
proof -
  let ?segs = "[([''Hello''], ''0'', [''%hide'', ''print(1)''], [''1''])]"
  have h: "list_all segment_ok ?segs" by code_simp
  have nb: "list_all (list_all (\<lambda>c. \<not> is_linebreak c)) (concat (map segment_lines ?segs))"
    by code_simp
  have l: "concat (map segment_lines ?segs)
             = [''Hello'', ''{{{id=0|'', ''%hide'', ''print(1)'', ''///'', ''1'', ''}}}'']"
    by simp
  have j: "join ''\<newline>'' [''Hello'', ''{{{id=0|'', ''%hide'', ''print(1)'', ''///'', ''1'', ''}}}'']
             = ''Hello\<newline>{{{id=0|\<newline>%hide\<newline>print(1)\<newline>///\<newline>1\<newline>}}}''"
    by simp
  have c: "concat (map (segment_cells (\<lambda>s. s)) ?segs)
             = [TextCell ''Hello'', ComputeCell 0 ''%hide\<newline>print(1)'' ''1'']"
    by code_simp
  from well_formed_worksheet_cells [of ?segs "\<lambda>s. s"] h nb l j c show ?thesis by simp
qed

text \<open>
  The same holds for the leading segments of any worksheet, whatever lines follow them:
  the pass first yields the cells of these segments, in order, and then goes on with the
  lines behind them.
\<close>

lemma yield_yield: "yield a (yield b r) = yield (a @ b) r"
  by (simp add: yield_def)

lemma yield_Nil: "yield [] r = r"
  by (simp add: yield_def)

lemma iter_segments_prefix:
  assumes "list_all segment_ok segs"
    and "drop (pos p) (worksheet_lines p) = concat (map segment_lines segs) @ tail"
  shows "\<exists>i. iter unescape p =
           yield (concat (map (segment_cells unescape) segs))
             (iter unescape
                (p\<lparr>pos := pos p + length (concat (map segment_lines segs)), index := i\<rparr>))"
  using assms
proof (induction segs arbitrary: p)
  case Nil
  have "p\<lparr>pos := pos p + length (concat (map segment_lines [])), index := index p\<rparr> = p"
    by simp
  then have "iter unescape p =
          yield (concat (map (segment_cells unescape) []))
            (iter unescape (p\<lparr>pos := pos p + length (concat (map segment_lines [])), index := index p\<rparr>))"
    by (simp add: yield_Nil)
  then show ?case by blast
next
  case (Cons seg segs)
  obtain narrative ds inp out where seg: "seg = (narrative, ds, inp, out)"
    by (cases seg)
  from Cons.prems seg have ok: "segment_ok (narrative, ds, inp, out)"
    and d: "drop (pos p) (worksheet_lines p) =
              segment_lines (narrative, ds, inp, out) @ (concat (map segment_lines segs) @ tail)"
    by simp_all
  let ?p' = "p\<lparr>pos := pos p + length (segment_lines (narrative, ds, inp, out)), index := decimal ds\<rparr>"
  have "drop (pos ?p') (worksheet_lines ?p') = concat (map segment_lines segs) @ tail"
    using drop_append_cursor [OF d] by simp
  with Cons.prems(1) have "\<exists>i. iter unescape ?p' =
           yield (concat (map (segment_cells unescape) segs))
             (iter unescape
                (?p'\<lparr>pos := pos ?p' + length (concat (map segment_lines segs)), index := i\<rparr>))"
    by (intro Cons.IH) simp_all
  then obtain i where i: "iter unescape ?p' =
           yield (concat (map (segment_cells unescape) segs))
             (iter unescape
                (?p'\<lparr>pos := pos ?p' + length (concat (map segment_lines segs)), index := i\<rparr>))"
    by blast
  have e: "?p'\<lparr>pos := pos ?p' + length (concat (map segment_lines segs)), index := i\<rparr>
             = p\<lparr>pos := pos p + length (concat (map segment_lines (seg # segs))), index := i\<rparr>"
    using seg by simp
  have "iter unescape p =
          yield (segment_cells unescape (narrative, ds, inp, out)) (iter unescape ?p')"
    by (rule iter_segment [OF ok d])
  also have "\<dots> = yield (concat (map (segment_cells unescape) (seg # segs)))
                      (iter unescape
                         (p\<lparr>pos := pos p + length (concat (map segment_lines (seg # segs))),
                            index := i\<rparr>))"
    unfolding i e using seg by (simp add: yield_yield)
  finally show ?case by blast
qed

section \<open>The order of the cells\<close>

text \<open>
  C7: the cells are produced in the order of their markers, and a TextCell that is not
  blank is always emitted directly before the ComputeCell whose opening marker ended its
  narrative; the document of scenario A yields the one cell ComputeCell 3 with input
  \<open>x = 1\<close> and output \<open>4\<close>. The code does not always emit that ComputeCell. When the
  cell behind a narrative is cut off by the end of the document, the TextCell is yielded
  and the pass then raises IndexError in the loop that reads the cell: the marker test
  comes before \<open>is_finished\<close> there, as in the loops at the end of the document
  above. No ComputeCell follows the
  TextCell \<open>Hello\<close> below. Scenario A holds (input and output are the unescaped
  \<open>x = 1\<close> and \<open>4\<close>).
\<close>

theorem C7_text_cell_without_compute_cell:
  "cells unescape ''{{{id=1|\<newline>a\<newline>///\<newline>b\<newline>}}}\<newline>Hello\<newline>{{{id=2|\<newline>c''
     = ([ComputeCell 1 (unescape ''a'') (unescape ''b''), TextCell (unescape ''Hello'')],
        Some IndexError)
   \<and> cells unescape ''{{{id=3|\<newline>x = 1\<newline>///\<newline>4\<newline>}}}''
     = ([ComputeCell 3 (unescape ''x = 1'') (unescape ''4'')], None)"
  by code_simp

section \<open>Rewriting a rewritten input\<close>

text \<open>Every line boundary is whitespace for \<open>strip\<close>; \<open>%\<close> is neither.\<close>

lemma is_linebreak_is_space: "is_linebreak c \<Longrightarrow> is_space c"
  unfolding is_linebreak_def is_space_def List.member_iff
  by (simp only: list.set insert_iff empty_iff) fast

lemma percent_no_space: "\<not> is_space CHR ''%''" "\<not> is_linebreak CHR ''%''"
  by (simp_all add: is_space_def is_linebreak_def)

lemma newline_space: "is_space CHR ''\<newline>''" "is_linebreak CHR ''\<newline>''"
  by (simp_all add: is_space_def is_linebreak_def)

text \<open>The shape of the lines that \<open>splitlines\<close> returns.\<close>

lemma splitlines_decompose:
  assumes "s \<noteq> []"
  shows "\<exists>tm s'. splitlines True s = (takeWhile (\<lambda>c. \<not> is_linebreak c) s @ tm) # splitlines True s'
           \<and> list_all is_linebreak tm \<and> length s' < length s
           \<and> s = takeWhile (\<lambda>c. \<not> is_linebreak c) s @ tm @ s'"
proof (cases "dropWhile (\<lambda>c. \<not> is_linebreak c) s")
  case Nil
  then have tw: "takeWhile (\<lambda>c. \<not> is_linebreak c) s = s" by simp
  have "splitlines True s = [s]"
    by (rule splitlines_last_line [OF assms Nil])
  then have "splitlines True s = (takeWhile (\<lambda>c. \<not> is_linebreak c) s @ []) # splitlines True []"
    by (simp only: tw splitlines_Nil append_Nil2)
  moreover have "list_all is_linebreak []" by simp
  moreover have "length ([]::string) < length s" using assms by simp
  moreover have "s = takeWhile (\<lambda>c. \<not> is_linebreak c) s @ [] @ []"
    by (simp only: tw append_Nil2)
  ultimately show ?thesis by blast
next
  case (Cons c r)
  have c: "is_linebreak c"
    using hd_dropWhile [of "\<lambda>c. \<not> is_linebreak c" s] Cons by simp
  have s: "s = takeWhile (\<lambda>c. \<not> is_linebreak c) s @ c # r"
    using takeWhile_dropWhile_id [of "\<lambda>c. \<not> is_linebreak c" s] Cons by simp
  have short: "length r < length s"
    by (rule dropWhile_Cons_shorter(1) [OF Cons])
  show ?thesis
  proof (cases "c = CHR 0x0D \<and> take 1 r = [CHR 0x0A]")
    case True
    then obtain r' where r: "r = CHR 0x0A # r'" by (cases r) auto
    have "splitlines True s = (takeWhile (\<lambda>c. \<not> is_linebreak c) s @ [CHR 0x0D, CHR 0x0A]) # splitlines True r'"
      using splitlines_crlf [of s r' True] Cons True r by simp
    moreover have "list_all is_linebreak [CHR 0x0D, CHR 0x0A]"
      by (simp add: is_linebreak_def)
    moreover have "length r' < length s" using short r by simp
    moreover have "s = takeWhile (\<lambda>c. \<not> is_linebreak c) s @ [CHR 0x0D, CHR 0x0A] @ r'"
      using s True r by simp
    ultimately show ?thesis by blast
  next
    case False
    have "splitlines True s = (takeWhile (\<lambda>c. \<not> is_linebreak c) s @ [c]) # splitlines True r"
      using splitlines_break [OF Cons False, of True] by simp
    moreover have "list_all is_linebreak [c]" using c by simp
    moreover have "s = takeWhile (\<lambda>c. \<not> is_linebreak c) s @ [c] @ r"
      using s by simp
    ultimately show ?thesis using short by blast
  qed
qed

lemma splitlines_line_shape:
  "l \<in> set (splitlines True s) \<Longrightarrow>
     \<exists>body tm. l = body @ tm \<and> list_all (\<lambda>c. \<not> is_linebreak c) body \<and> list_all is_linebreak tm"
proof (induction s rule: length_induct)
  case (1 s)
  show ?case
  proof (cases "s = []")
    case True
    with "1.prems" show ?thesis by (simp add: splitlines_Nil)
  next
    case False
    from splitlines_decompose [OF False] obtain tm s'
      where sp: "splitlines True s = (takeWhile (\<lambda>c. \<not> is_linebreak c) s @ tm) # splitlines True s'"
        and tm: "list_all is_linebreak tm" and short: "length s' < length s"
      by blast
    from "1.prems" sp
    consider "l = takeWhile (\<lambda>c. \<not> is_linebreak c) s @ tm" | "l \<in> set (splitlines True s')"
      by auto
    then show ?thesis
    proof cases
      case 1
      moreover have "list_all (\<lambda>c. \<not> is_linebreak c) (takeWhile (\<lambda>c. \<not> is_linebreak c) s)"
        by (auto simp: list_all_iff dest: set_takeWhileD)
      ultimately show ?thesis using tm by blast
    next
      case 2
      with "1.IH" short show ?thesis by blast
    qed
  qed
qed

lemma splitlines_suffix:
  "splitlines True (concat (drop n (splitlines True s))) = drop n (splitlines True s)"
proof (induction s arbitrary: n rule: length_induct)
  case (1 s)
  show ?case
  proof (cases n)
    case 0
    then show ?thesis by (simp add: concat_splitlines)
  next
    case (Suc m)
    show ?thesis
    proof (cases "s = []")
      case True
      then show ?thesis by (simp add: splitlines_Nil)
    next
      case False
      from splitlines_decompose [OF False] obtain tm s'
        where sp: "splitlines True s = (takeWhile (\<lambda>c. \<not> is_linebreak c) s @ tm) # splitlines True s'"
          and short: "length s' < length s"
        by blast
      from "1.IH" short have "splitlines True (concat (drop m (splitlines True s'))) = drop m (splitlines True s')"
        by blast
      with sp Suc show ?thesis by simp
    qed
  qed
qed

lemma splitlines_newline_line:
  assumes "list_all (\<lambda>c. \<not> is_linebreak c) x"
  shows "splitlines True (x @ ''\<newline>'' @ t) = (x @ ''\<newline>'') # splitlines True t"
proof -
  from assms have x: "takeWhile (\<lambda>c. \<not> is_linebreak c) (x @ ''\<newline>'' @ t) = x"
    and d: "dropWhile (\<lambda>c. \<not> is_linebreak c) (x @ ''\<newline>'' @ t) = CHR ''\<newline>'' # t"
    by (simp_all add: list_all_iff takeWhile_append2 dropWhile_append2 is_linebreak_def)
  from splitlines_break [OF d, of True] x show ?thesis by simp
qed

text \<open>Stripping a line, and stripping a promoted directive line.\<close>

lemma strip_append_spaces:
  assumes "list_all is_space t"
  shows "strip (b @ t) = strip b"
proof (cases "list_all is_space b")
  case True
  with assms have e1: "dropWhile is_space (b @ t) = []" and e2: "dropWhile is_space b = []"
    by (auto simp: list_all_iff)
  show ?thesis unfolding strip_def e1 e2 by simp
next
  case False
  then obtain x where x: "x \<in> set b" "\<not> is_space x"
    by (auto simp: list_all_iff)
  then have d: "dropWhile is_space (b @ t) = dropWhile is_space b @ t"
    by (simp add: dropWhile_append1)
  from assms have "dropWhile is_space (rev t @ rev (dropWhile is_space b))
                     = dropWhile is_space (rev (dropWhile is_space b))"
    by (intro dropWhile_append2) (simp add: list_all_iff)
  with d show ?thesis unfolding strip_def by simp
qed

lemma set_strip: "set (strip b) \<subseteq> set b"
proof -
  have "set (strip b) \<subseteq> set (dropWhile is_space b)"
    unfolding strip_def using set_dropWhileD [of _ is_space "rev (dropWhile is_space b)"]
    by auto
  also have "\<dots> \<subseteq> set b"
    using set_dropWhileD [of _ is_space b] by auto
  finally show ?thesis .
qed

lemma strip_line_no_linebreak:
  assumes "l \<in> set (splitlines True s)"
  shows "list_all (\<lambda>c. \<not> is_linebreak c) (strip l)"
proof -
  from splitlines_line_shape [OF assms] obtain body tm
    where l: "l = body @ tm" and body: "list_all (\<lambda>c. \<not> is_linebreak c) body"
      and tm: "list_all is_linebreak tm"
    by blast
  from tm have "list_all is_space tm"
    by (auto simp: list_all_iff dest: is_linebreak_is_space)
  with l have "strip l = strip body" by (simp add: strip_append_spaces)
  with body set_strip [of body] show ?thesis
    by (auto simp: list_all_iff)
qed

lemma strip_last_no_space:
  assumes "strip l \<noteq> []"
  shows "\<not> is_space (last (strip l))"
proof -
  let ?w = "dropWhile is_space (rev (dropWhile is_space l))"
  from assms have w: "?w \<noteq> []" by (simp add: strip_def)
  then have "\<not> is_space (hd ?w)" by (rule hd_dropWhile)
  moreover have "last (strip l) = hd ?w"
    using w by (simp add: strip_def last_rev)
  ultimately show ?thesis by simp
qed

lemma dropWhile_snoc_stop: "\<not> P a \<Longrightarrow> \<exists>ys. dropWhile P (xs @ [a]) = ys @ [a]"
  by (induction xs) auto

lemma strip_percent:
  assumes "startswith l ''%''"
  shows "\<exists>y. strip l = CHR ''%'' # y"
proof -
  from assms obtain l' where l: "l = CHR ''%'' # l'"
    by (cases l) (auto simp: startswith_def)
  then have d: "dropWhile is_space l = l" by (simp add: percent_no_space)
  from dropWhile_snoc_stop [of is_space "CHR ''%''" "rev l'"] percent_no_space(1)
  obtain ys where "dropWhile is_space (rev l' @ [CHR ''%'']) = ys @ [CHR ''%'']"
    by blast
  with d l have "strip l = CHR ''%'' # rev ys" by (simp add: strip_def)
  then show ?thesis by blast
qed

lemma strip_promote:
  assumes "startswith l ''%''"
  shows "strip (promote l) = CHR ''%'' # strip l"
proof -
  from strip_percent [OF assms] obtain y where z: "strip l = CHR ''%'' # y" by blast
  then have ne: "strip l \<noteq> []" by simp
  from strip_last_no_space [OF ne] have "\<not> is_space (hd (rev (strip l)))"
    using ne by (simp add: hd_rev)
  moreover from ne obtain a as where r: "rev (strip l) = a # as" by (cases "rev (strip l)") auto
  ultimately have "\<not> is_space a" by simp
  with r have "dropWhile is_space (CHR ''\<newline>'' # rev (strip l) @ [CHR ''%''])
                 = rev (strip l) @ [CHR ''%'']"
    by (simp add: newline_space)
  then have "strip (CHR ''%'' # strip l @ [CHR ''\<newline>'']) = rev (rev (strip l) @ [CHR ''%''])"
    by (simp add: strip_def percent_no_space)
  then show ?thesis by (simp add: promote_def)
qed

lemma promote_not_noop:
  assumes "startswith l ''%''"
  shows "\<not> noop_directive (promote l)" and "startswith (promote l) ''%%''"
    and "promote (promote l) = CHR ''%'' # promote l"
proof -
  from strip_percent [OF assms] obtain y where z: "strip l = CHR ''%'' # y" by blast
  with strip_promote [OF assms] show "\<not> noop_directive (promote l)"
    by (simp add: noop_directive_def)
  from z show "startswith (promote l) ''%%''"
    by (simp add: promote_def startswith_def)
  from strip_promote [OF assms] show "promote (promote l) = CHR ''%'' # promote l"
    by (simp add: promote_def)
qed

text \<open>The lines of a rewritten input, and of its second rewrite.\<close>

lemma splitlines_promoted:
  assumes "list_all (\<lambda>l. list_all (\<lambda>c. \<not> is_linebreak c) (strip l)) ks"
  shows "splitlines True (concat (map promote ks) @ t) = map promote ks @ splitlines True t"
  using assms
proof (induction ks)
  case Nil
  show ?case by simp
next
  case (Cons k ks)
  from Cons.prems have "list_all (\<lambda>c. \<not> is_linebreak c) (CHR ''%'' # strip k)"
    by (simp add: percent_no_space)
  from splitlines_newline_line [OF this, of "concat (map promote ks) @ t"]
  have "splitlines True (promote k @ concat (map promote ks) @ t)
          = promote k # splitlines True (concat (map promote ks) @ t)"
    by (simp add: promote_def)
  with Cons show ?case by simp
qed

lemma takeWhile_dropWhile_Nil: "takeWhile P (dropWhile P xs) = []"
  by (induction xs) auto

lemma dropWhile_Cons_stop: "dropWhile P xs = y # ys \<Longrightarrow> \<not> P y"
  by (induction xs) (auto split: if_splits)

lemma startswith_percent: "startswith (promote l) ''%''"
  by (simp add: promote_def startswith_def)

lemma startswith_two_percent: "startswith l ''%%'' \<Longrightarrow> startswith l ''%''"
  by (cases l) (auto simp: startswith_def)

lemma directive_rewrite_lines:
  "splitlines True (directive_rewrite s) =
     map promote (filter (\<lambda>l. \<not> noop_directive l)
                    (takeWhile (\<lambda>l. startswith l ''%'') (splitlines True s)))
     @ dropWhile (\<lambda>l. startswith l ''%'') (splitlines True s)"
proof -
  let ?ls = "splitlines True s"
  let ?kept = "filter (\<lambda>l. \<not> noop_directive l) (takeWhile (\<lambda>l. startswith l ''%'') ?ls)"
  let ?rem = "dropWhile (\<lambda>l. startswith l ''%'') ?ls"
  have "set ?kept \<subseteq> set ?ls"
    by (auto dest: set_takeWhileD)
  then have nb: "list_all (\<lambda>l. list_all (\<lambda>c. \<not> is_linebreak c) (strip l)) ?kept"
    unfolding list_all_iff using strip_line_no_linebreak [of _ s] by (auto simp: list_all_iff)
  have "?rem = drop (length (takeWhile (\<lambda>l. startswith l ''%'') ?ls)) ?ls"
    by (rule dropWhile_eq_drop)
  then have "splitlines True (concat ?rem) = ?rem"
    using splitlines_suffix [of "length (takeWhile (\<lambda>l. startswith l ''%'') ?ls)" s] by simp
  with splitlines_promoted [OF nb, of "concat ?rem"] show ?thesis
    by (simp add: directive_rewrite_def Let_def)
qed

lemma directive_rewrite_twice_lines:
  fixes s :: string
  defines "kept \<equiv> filter (\<lambda>l. \<not> noop_directive l)
                      (takeWhile (\<lambda>l. startswith l ''%'') (splitlines True s))"
    and "rem \<equiv> dropWhile (\<lambda>l. startswith l ''%'') (splitlines True s)"
  shows "splitlines True (directive_rewrite s) = map promote kept @ rem"
    and "splitlines True (directive_rewrite (directive_rewrite s)) = map promote (map promote kept) @ rem"
    and "leading_block (directive_rewrite s) = map promote kept"
    and "leading_block (directive_rewrite (directive_rewrite s)) = map promote (map promote kept)"
    and "map promote (map promote kept) = map ((#) CHR ''%'') (map promote kept)"
    and "directive_rewrite (directive_rewrite s) = concat (map promote (map promote kept)) @ concat rem"
proof -
  show l1: "splitlines True (directive_rewrite s) = map promote kept @ rem"
    unfolding kept_def rem_def by (rule directive_rewrite_lines)
  have sw: "\<forall>l \<in> set kept. startswith l ''%''"
    unfolding kept_def by (auto dest: set_takeWhileD)
  have pk: "\<And>x. x \<in> set (map promote kept) \<Longrightarrow> startswith x ''%''"
    by (auto simp: startswith_percent)
  have "takeWhile (\<lambda>l. startswith l ''%'') (map promote kept @ rem)
          = map promote kept @ takeWhile (\<lambda>l. startswith l ''%'') rem"
    by (rule takeWhile_append2) (rule pk)
  moreover have "takeWhile (\<lambda>l. startswith l ''%'') rem = []"
    unfolding rem_def by (rule takeWhile_dropWhile_Nil)
  ultimately have tw: "takeWhile (\<lambda>l. startswith l ''%'') (map promote kept @ rem) = map promote kept"
    by simp
  have "dropWhile (\<lambda>l. startswith l ''%'') (map promote kept @ rem)
          = dropWhile (\<lambda>l. startswith l ''%'') rem"
    by (rule dropWhile_append2) (rule pk)
  moreover have "dropWhile (\<lambda>l. startswith l ''%'') rem = rem"
    unfolding rem_def by (rule dropWhile_idem)
  ultimately have dw: "dropWhile (\<lambda>l. startswith l ''%'') (map promote kept @ rem) = rem"
    by simp
  have fl: "filter (\<lambda>l. \<not> noop_directive l) (map promote kept) = map promote kept"
    using sw by (auto simp: filter_id_conv promote_not_noop(1))
  show l2: "splitlines True (directive_rewrite (directive_rewrite s)) = map promote (map promote kept) @ rem"
    using directive_rewrite_lines [of "directive_rewrite s"] by (simp only: l1 tw dw fl)
  show "directive_rewrite (directive_rewrite s) = concat (map promote (map promote kept)) @ concat rem"
    unfolding directive_rewrite_def [of "directive_rewrite s"] Let_def l1 tw dw fl ..
  have rem2: "takeWhile (\<lambda>l. startswith l ''%%'') rem = []"
  proof (cases rem)
    case Nil
    then show ?thesis by simp
  next
    case (Cons y ys)
    then have "\<not> startswith y ''%''"
      unfolding rem_def by (rule dropWhile_Cons_stop)
    then have "\<not> startswith y ''%%''" using startswith_two_percent by blast
    with \<open>rem = y # ys\<close> show ?thesis by simp
  qed
  have pk2: "\<And>x. x \<in> set (map promote kept) \<Longrightarrow> startswith x ''%%''"
    using sw by (auto simp: promote_not_noop(2))
  have "takeWhile (\<lambda>l. startswith l ''%%'') (map promote kept @ rem)
          = map promote kept @ takeWhile (\<lambda>l. startswith l ''%%'') rem"
    by (rule takeWhile_append2) (rule pk2)
  with rem2 show "leading_block (directive_rewrite s) = map promote kept"
    by (simp add: leading_block_def l1)
  show pp: "map promote (map promote kept) = map ((#) CHR ''%'') (map promote kept)"
    using sw by (simp add: promote_not_noop(3))
  have pk3: "\<And>x. x \<in> set (map promote (map promote kept)) \<Longrightarrow> startswith x ''%%''"
    unfolding pp by (auto simp: startswith_def promote_def)
  have "takeWhile (\<lambda>l. startswith l ''%%'') (map promote (map promote kept) @ rem)
          = map promote (map promote kept) @ takeWhile (\<lambda>l. startswith l ''%%'') rem"
    by (rule takeWhile_append2) (rule pk3)
  with rem2 show "leading_block (directive_rewrite (directive_rewrite s)) = map promote (map promote kept)"
    by (simp add: leading_block_def l2)
qed

text \<open>
  C6: rewriting an input that is already rewritten leaves its leading \<open>%%\<close> block
  unchanged. It does not: every line of the block begins with \<open>%\<close>, so the second
  rewrite puts one more \<open>%\<close> in front of it.
\<close>

theorem C6_leading_block_not_preserved:
  "leading_block (ipython_input (ipython_input ''%time'')) \<noteq> leading_block (ipython_input ''%time'')"
  by code_simp

text \<open>
  C6, amended: rewriting an input that is already rewritten keeps the leading block line
  for line, in order, dropping and adding no line, with one more \<open>%\<close> in front of each
  line; the lines behind the block are unchanged.
\<close>

theorem C6_second_rewrite_adds_percent:
  "leading_block (ipython_input (ipython_input inp))
     = map ((#) CHR ''%'') (leading_block (ipython_input inp))
   \<and> ipython_input (ipython_input inp)
     = concat (map ((#) CHR ''%'') (leading_block (ipython_input inp)))
       @ concat (drop (length (leading_block (ipython_input inp))) (splitlines True (ipython_input inp)))"
proof -
  let ?kept = "filter (\<lambda>l. \<not> noop_directive l)
                 (takeWhile (\<lambda>l. startswith l ''%'') (splitlines True inp))"
  let ?rem = "dropWhile (\<lambda>l. startswith l ''%'') (splitlines True inp)"
  note t = directive_rewrite_twice_lines [of inp]
  have b1: "leading_block (directive_rewrite inp) = map promote ?kept" by (rule t(3))
  have b2: "leading_block (directive_rewrite (directive_rewrite inp))
              = map ((#) CHR ''%'') (map promote ?kept)"
    by (simp only: t(4) t(5))
  have r: "drop (length (map promote ?kept)) (splitlines True (directive_rewrite inp)) = ?rem"
    using t(1) by simp
  have w: "directive_rewrite (directive_rewrite inp)
             = concat (map ((#) CHR ''%'') (map promote ?kept)) @ concat ?rem"
    by (simp only: t(6) t(5))
  show ?thesis
  proof
    show "leading_block (ipython_input (ipython_input inp))
            = map ((#) CHR ''%'') (leading_block (ipython_input inp))"
      unfolding ipython_input_directive_rewrite b1 b2 ..
    show "ipython_input (ipython_input inp)
            = concat (map ((#) CHR ''%'') (leading_block (ipython_input inp)))
              @ concat (drop (length (leading_block (ipython_input inp)))
                          (splitlines True (ipython_input inp)))"
      unfolding ipython_input_directive_rewrite b1 r w ..
  qed
qed

section \<open>What the opening marker matches\<close>

text \<open>
  On a line without a newline (the lines of \<open>splitlines\<close> contain none) the pattern
  \<open>CELL_FRONT\<close> matches exactly the prefix, a run of digits that may be empty, and the
  bar; the captured group is that run.
\<close>

lemma CELL_FRONT_iff:
  assumes "CHR ''\<newline>'' \<notin> set l"
  shows "CELL_FRONT l = Some ds \<longleftrightarrow> l = ''{{{id='' @ ds @ ''|'' \<and> list_all is_digit ds"
proof
  from assms have "l \<noteq> [] \<Longrightarrow> last l \<noteq> CHR ''\<newline>''"
    by (metis last_in_set)
  then have b: "before_dollar l = l"
    by (auto simp: before_dollar_def)
  {
    assume "CELL_FRONT l = Some ds"
    with b have t: "take 6 l = ''{{{id=''" and ne: "drop 6 l \<noteq> []" and la: "last l = CHR ''|''"
      and ds: "ds = butlast (drop 6 l)" and dig: "list_all is_digit ds"
      by (auto simp: CELL_FRONT_def Let_def split: if_splits)
    from ne have "last (drop 6 l) = last l" by (simp add: last_drop)
    with ne la ds have "drop 6 l = ds @ ''|''"
      using append_butlast_last_id [of "drop 6 l"] by simp
    with t have "l = ''{{{id='' @ ds @ ''|''"
      using append_take_drop_id [of 6 l] by simp
    with dig show "l = ''{{{id='' @ ds @ ''|'' \<and> list_all is_digit ds" by simp
  }
  {
    assume "l = ''{{{id='' @ ds @ ''|'' \<and> list_all is_digit ds"
    then show "CELL_FRONT l = Some ds" using CELL_FRONT_marker [of ds] by (simp del: append.simps)
  }
qed

end
